theory Spec2Isabelle
  imports Main
begin

section \<open>Go strings and UTF-8\<close>

text \<open>
  A Go \<open>string\<close> is a sequence of bytes, modelled by \<open>string\<close> (a list of 8-bit
  characters). \<open>byte c\<close> is the numeric value of a byte, a rune is a natural number.
\<close>

definition byte :: "char \<Rightarrow> nat" where
  "byte c = of_char c"

definition mkbyte :: "nat \<Rightarrow> char" where
  "mkbyte n = char_of n"

definition dquote :: char where
  "dquote = CHR 0x22"

definition bslash :: char where
  "bslash = CHR 0x5C"

definition RuneError :: nat where
  "RuneError = 0xFFFD"

text \<open>
  \<open>utf8.DecodeRuneInString\<close>: the rune at the head of the string and its width in
  bytes; \<open>(RuneError, 1)\<close> for a byte that starts no well-formed encoding (the tables
  \<open>first\<close> and \<open>acceptRanges\<close> of the library are written out as comparisons, the
  masks and shifts as \<open>mod\<close> and multiplication).
\<close>

definition DecodeRuneInString :: "string \<Rightarrow> nat \<times> nat" where
  "DecodeRuneInString s =
     (case s of
        [] \<Rightarrow> (RuneError, 0)
      | c0 # t0 \<Rightarrow>
          let s0 = byte c0 in
          if s0 < 0x80 then (s0, 1)
          else if s0 < 0xC2 \<or> 0xF4 < s0 then (RuneError, 1)
          else
            let sz = (if s0 < 0xE0 then 2 else if s0 < 0xF0 then 3 else (4::nat));
                lo = (if s0 = 0xE0 then 0xA0 else if s0 = 0xF0 then 0x90 else 0x80);
                hi = (if s0 = 0xED then 0x9F else if s0 = 0xF4 then 0x8F else 0xBF)
            in
            if length s < sz then (RuneError, 1)
            else
              (case t0 of
                 [] \<Rightarrow> (RuneError, 1)
               | c1 # t1 \<Rightarrow>
                   let s1 = byte c1 in
                   if s1 < lo \<or> hi < s1 then (RuneError, 1)
                   else if sz \<le> 2 then ((s0 mod 32) * 64 + s1 mod 64, 2)
                   else
                     (case t1 of
                        [] \<Rightarrow> (RuneError, 1)
                      | c2 # t2 \<Rightarrow>
                          let s2 = byte c2 in
                          if s2 < 0x80 \<or> 0xBF < s2 then (RuneError, 1)
                          else if sz \<le> 3
                          then ((s0 mod 16) * 4096 + (s1 mod 64) * 64 + s2 mod 64, 3)
                          else
                            (case t2 of
                               [] \<Rightarrow> (RuneError, 1)
                             | c3 # t3 \<Rightarrow>
                                 let s3 = byte c3 in
                                 if s3 < 0x80 \<or> 0xBF < s3 then (RuneError, 1)
                                 else ((s0 mod 8) * 262144 + (s1 mod 64) * 4096
                                         + (s2 mod 64) * 64 + s3 mod 64, 4)))))"

text \<open>
  \<open>utf8.EncodeRune\<close>: the UTF-8 encoding of a rune; surrogates and values beyond
  \<open>U+10FFFF\<close> are encoded as \<open>U+FFFD\<close>.
\<close>

definition EncodeRune :: "nat \<Rightarrow> string" where
  "EncodeRune r =
     (if r \<le> 0x7F then [mkbyte r]
      else if r \<le> 0x7FF then [mkbyte (0xC0 + r div 64), mkbyte (0x80 + r mod 64)]
      else if 0x10FFFF < r \<or> (0xD800 \<le> r \<and> r \<le> 0xDFFF)
      then [mkbyte 0xEF, mkbyte 0xBF, mkbyte 0xBD]
      else if r \<le> 0xFFFF
      then [mkbyte (0xE0 + r div 4096), mkbyte (0x80 + (r div 64) mod 64),
            mkbyte (0x80 + r mod 64)]
      else [mkbyte (0xF0 + r div 262144), mkbyte (0x80 + (r div 4096) mod 64),
            mkbyte (0x80 + (r div 64) mod 64), mkbyte (0x80 + r mod 64)])"

text \<open>
  \<open>utf8.ValidString\<close>: no position of the string decodes to \<open>(RuneError, 1)\<close>.
\<close>

function ValidString :: "string \<Rightarrow> bool" where
  "ValidString [] = True"
| "ValidString (c # cs) =
     (case DecodeRuneInString (c # cs) of
        (r, w) \<Rightarrow>
          if r = RuneError \<and> w = 1 then False
          else ValidString (drop (w - 1) cs))"
  by pat_completeness auto
termination
  by (relation "measure length") auto

text \<open>
  The coercion to valid UTF-8 that \<open>encoding/json\<close> applies to every string it writes
  or reads: each byte that starts no well-formed encoding is replaced by the three
  bytes of \<open>U+FFFD\<close>.
\<close>

function coerceUTF8 :: "string \<Rightarrow> string" where
  "coerceUTF8 [] = []"
| "coerceUTF8 (c # cs) =
     (case DecodeRuneInString (c # cs) of
        (r, w) \<Rightarrow>
          if r = RuneError \<and> w = 1 then EncodeRune RuneError @ coerceUTF8 cs
          else c # take (w - 1) cs @ coerceUTF8 (drop (w - 1) cs))"
  by pat_completeness auto
termination
  by (relation "measure length") auto

section \<open>JSON documents\<close>

datatype json =
    JNull
  | JBool bool
  | JNum string
  | JStr string
  | JArr "json list"
  | JObj "(string \<times> json) list"

subsection \<open>Encoding\<close>

definition hex :: "nat \<Rightarrow> char" where
  "hex n = ''0123456789abcdef'' ! n"

text \<open>
  \<open>htmlSafeSet\<close> of \<open>encoding/json\<close>: the ASCII bytes written as they are, namely
  those from the space on but for the double quote, the backslash and the three
  characters \<open><\<close>, \<open>>\<close> and \<open>&\<close>.
\<close>

definition htmlSafe :: "nat \<Rightarrow> bool" where
  "htmlSafe b = (0x20 \<le> b \<and> b < 0x80 \<and> b \<noteq> 0x22 \<and> b \<noteq> 0x5C
                   \<and> b \<noteq> 0x3C \<and> b \<noteq> 0x3E \<and> b \<noteq> 0x26)"

definition escapeByte :: "char \<Rightarrow> string" where
  "escapeByte c =
     (let b = byte c in
      if c = bslash \<or> c = dquote then [bslash, c]
      else if b = 0x08 then [bslash, CHR ''b'']
      else if b = 0x0C then [bslash, CHR ''f'']
      else if b = 0x0A then [bslash, CHR ''n'']
      else if b = 0x0D then [bslash, CHR ''r'']
      else if b = 0x09 then [bslash, CHR ''t'']
      else [bslash, CHR ''u'', CHR ''0'', CHR ''0'', hex (b div 16), hex (b mod 16)])"

text \<open>
  The loop of \<open>appendString\<close> in \<open>encoding/json\<close> (with HTML escaping, as
  \<open>json.Marshal\<close> calls it), without the two surrounding quotes. (Releases of Go
  before 1.22 write the backspace and the form feed as \<open>u0008\<close> and \<open>u000c\<close>
  escapes; both forms are read back as the same byte.)
\<close>

function appendString_body :: "string \<Rightarrow> string" where
  "appendString_body [] = []"
| "appendString_body (c # cs) =
     (if byte c < 0x80
      then (if htmlSafe (byte c) then [c] else escapeByte c) @ appendString_body cs
      else
        (case DecodeRuneInString (c # cs) of
           (r, w) \<Rightarrow>
             if r = RuneError \<and> w = 1
             then [bslash, CHR ''u'', CHR ''f'', CHR ''f'', CHR ''f'', CHR ''d'']
                    @ appendString_body cs
             else if r = 0x2028 \<or> r = 0x2029
             then [bslash, CHR ''u'', CHR ''2'', CHR ''0'', CHR ''2'', hex (r mod 16)]
                    @ appendString_body (drop (w - 1) cs)
             else c # take (w - 1) cs @ appendString_body (drop (w - 1) cs)))"
  by pat_completeness auto
termination
  by (relation "measure length") auto

definition appendString :: "string \<Rightarrow> string" where
  "appendString s = dquote # appendString_body s @ [dquote]"

text \<open>The compact text that \<open>json.Marshal\<close> writes for a document.\<close>

fun render :: "json \<Rightarrow> string"
  and render_elems :: "json list \<Rightarrow> string"
  and render_members :: "(string \<times> json) list \<Rightarrow> string"
where
  "render JNull = ''null''"
| "render (JBool b) = (if b then ''true'' else ''false'')"
| "render (JNum t) = t"
| "render (JStr s) = appendString s"
| "render (JArr vs) = CHR ''['' # render_elems vs @ '']''"
| "render (JObj kvs) = CHR ''{'' # render_members kvs @ ''}''"
| "render_elems [] = []"
| "render_elems [v] = render v"
| "render_elems (v # v' # vs) = render v @ CHR '','' # render_elems (v' # vs)"
| "render_members [] = []"
| "render_members [(k, v)] = appendString k @ CHR '':'' # render v"
| "render_members ((k, v) # m # ms) =
     appendString k @ CHR '':'' # render v @ CHR '','' # render_members (m # ms)"

subsection \<open>Decoding\<close>

definition isSpace :: "char \<Rightarrow> bool" where
  "isSpace c = (c = CHR '' '' \<or> c = CHR 0x09 \<or> c = CHR 0x0D \<or> c = CHR 0x0A)"

definition skip_ws :: "string \<Rightarrow> string" where
  "skip_ws s = dropWhile isSpace s"

definition hexval :: "char \<Rightarrow> nat option" where
  "hexval c =
     (let b = byte c in
      if 0x30 \<le> b \<and> b \<le> 0x39 then Some (b - 0x30)
      else if 0x61 \<le> b \<and> b \<le> 0x66 then Some (b - 0x61 + 10)
      else if 0x41 \<le> b \<and> b \<le> 0x46 then Some (b - 0x41 + 10)
      else None)"

text \<open>
  \<open>getu4\<close> of \<open>encoding/json\<close>, applied to the text after the backslash: the value
  of \<open>uXXXX\<close>, or nothing when there are no four hexadecimal digits.
\<close>

definition getu4 :: "string \<Rightarrow> nat option" where
  "getu4 s =
     (case s of
        u # h1 # h2 # h3 # h4 # _ \<Rightarrow>
          if u \<noteq> CHR ''u'' then None
          else
            (case (hexval h1, hexval h2, hexval h3, hexval h4) of
               (Some a, Some b, Some c, Some d) \<Rightarrow> Some (((a * 16 + b) * 16 + c) * 16 + d)
             | _ \<Rightarrow> None)
      | _ \<Rightarrow> None)"

definition IsSurrogate :: "nat \<Rightarrow> bool" where
  "IsSurrogate r = (0xD800 \<le> r \<and> r < 0xE000)"

text \<open>\<open>utf16.DecodeRune\<close>: the rune of a surrogate pair, \<open>U+FFFD\<close> for no pair.\<close>

definition utf16_DecodeRune :: "nat \<Rightarrow> nat \<Rightarrow> nat" where
  "utf16_DecodeRune r1 r2 =
     (if 0xD800 \<le> r1 \<and> r1 < 0xDC00 \<and> 0xDC00 \<le> r2 \<and> r2 < 0xE000
      then (r1 - 0xD800) * 1024 + (r2 - 0xDC00) + 0x10000
      else RuneError)"

text \<open>
  A string literal, read from after its opening quote: the scanner's rules (no control
  character, only the escapes of JSON) and the decoding of \<open>unquote\<close> (escapes
  resolved, surrogate pairs joined, ill-formed UTF-8 replaced by \<open>U+FFFD\<close>) in one
  pass. The result is the decoded string and the text after the closing quote.
\<close>

definition consStr :: "string \<Rightarrow> (string \<times> string) option \<Rightarrow> (string \<times> string) option" where
  "consStr p x = (case x of None \<Rightarrow> None | Some (t, r) \<Rightarrow> Some (p @ t, r))"

function parse_string :: "string \<Rightarrow> (string \<times> string) option" where
  "parse_string [] = None"
| "parse_string (c # cs) =
     (if c = dquote then Some ([], cs)
      else if c = bslash then
        (case cs of
           [] \<Rightarrow> None
         | e # cs' \<Rightarrow>
             if e = dquote \<or> e = bslash \<or> e = CHR ''/'' then consStr [e] (parse_string cs')
             else if e = CHR ''b'' then consStr [CHR 0x08] (parse_string cs')
             else if e = CHR ''f'' then consStr [CHR 0x0C] (parse_string cs')
             else if e = CHR ''n'' then consStr [CHR 0x0A] (parse_string cs')
             else if e = CHR ''r'' then consStr [CHR 0x0D] (parse_string cs')
             else if e = CHR ''t'' then consStr [CHR 0x09] (parse_string cs')
             else if e = CHR ''u'' then
               (case getu4 cs of
                  None \<Rightarrow> None
                | Some rr \<Rightarrow>
                    if IsSurrogate rr then
                      (case (case drop 5 cs of
                               b' # rest \<Rightarrow> if b' = bslash then getu4 rest else None
                             | [] \<Rightarrow> None) of
                         None \<Rightarrow> consStr (EncodeRune RuneError) (parse_string (drop 5 cs))
                       | Some rr1 \<Rightarrow>
                           if utf16_DecodeRune rr rr1 \<noteq> RuneError
                           then consStr (EncodeRune (utf16_DecodeRune rr rr1))
                                  (parse_string (drop 11 cs))
                           else consStr (EncodeRune RuneError) (parse_string (drop 5 cs)))
                    else consStr (EncodeRune rr) (parse_string (drop 5 cs)))
             else None)
      else if byte c < 0x20 then None
      else if byte c < 0x80 then consStr [c] (parse_string cs)
      else
        (case DecodeRuneInString (c # cs) of
           (r, w) \<Rightarrow> consStr (EncodeRune r) (parse_string (drop (w - 1) cs))))"
  by pat_completeness auto
termination
  by (relation "measure length") auto

definition isDigit :: "char \<Rightarrow> bool" where
  "isDigit c = (0x30 \<le> byte c \<and> byte c \<le> 0x39)"

text \<open>
  A number literal as the scanner accepts it: an optional minus, an integer part
  without leading zero, an optional fraction and an optional exponent. The result is
  the literal and the text after it.
\<close>

definition scan_digits :: "string \<Rightarrow> (string \<times> string) option" where
  "scan_digits s =
     (if takeWhile isDigit s = [] then None
      else Some (takeWhile isDigit s, dropWhile isDigit s))"

definition scan_int :: "string \<Rightarrow> (string \<times> string) option" where
  "scan_int s =
     (case s of
        [] \<Rightarrow> None
      | c # cs \<Rightarrow>
          if c = CHR ''0'' then Some ([c], cs)
          else if isDigit c then Some (c # takeWhile isDigit cs, dropWhile isDigit cs)
          else None)"

definition scan_frac :: "string \<Rightarrow> (string \<times> string) option" where
  "scan_frac s =
     (case s of
        [] \<Rightarrow> Some ([], [])
      | c # cs \<Rightarrow>
          if c = CHR ''.'' then consStr [c] (scan_digits cs)
          else Some ([], s))"

definition scan_exp :: "string \<Rightarrow> (string \<times> string) option" where
  "scan_exp s =
     (case s of
        [] \<Rightarrow> Some ([], [])
      | c # cs \<Rightarrow>
          if c = CHR ''e'' \<or> c = CHR ''E'' then
            (case cs of
               [] \<Rightarrow> None
             | d # ds \<Rightarrow>
                 if d = CHR ''+'' \<or> d = CHR ''-'' then consStr [c, d] (scan_digits ds)
                 else consStr [c] (scan_digits cs))
          else Some ([], s))"

definition scan_number :: "string \<Rightarrow> (string \<times> string) option" where
  "scan_number s =
     (let (sign, s1) = (case s of
                          [] \<Rightarrow> ([], s)
                        | c # cs \<Rightarrow> if c = CHR ''-'' then ([c], cs) else ([], s))
      in case scan_int s1 of
           None \<Rightarrow> None
         | Some (i, s2) \<Rightarrow>
             (case scan_frac s2 of
                None \<Rightarrow> None
              | Some (f, s3) \<Rightarrow>
                  (case scan_exp s3 of
                     None \<Rightarrow> None
                   | Some (e, s4) \<Rightarrow> Some (sign @ i @ f @ e, s4))))"

text \<open>
  The grammar of JSON by recursive descent. The first argument bounds the number of
  nested calls; \<open>parseJSON\<close> starts with a bound that no text can exhaust, since every
  call but the first has consumed a byte. A value is followed by the rest of the text.
  The depth of nesting is not bounded otherwise (the library rejects, since Go 1.15,
  a text nested deeper than 10000 levels).
\<close>

fun parse_value :: "nat \<Rightarrow> string \<Rightarrow> (json \<times> string) option"
  and parse_array :: "nat \<Rightarrow> string \<Rightarrow> (json list \<times> string) option"
  and parse_object :: "nat \<Rightarrow> string \<Rightarrow> ((string \<times> json) list \<times> string) option"
where
  "parse_value 0 s = None"
| "parse_value (Suc n) s =
     (case skip_ws s of
        [] \<Rightarrow> None
      | c # cs \<Rightarrow>
          if c = dquote then
            (case parse_string cs of None \<Rightarrow> None | Some (t, r) \<Rightarrow> Some (JStr t, r))
          else if c = CHR ''['' then
            (case skip_ws cs of
               [] \<Rightarrow> None
             | d # ds \<Rightarrow>
                 if d = CHR '']'' then Some (JArr [], ds)
                 else (case parse_array n cs of
                         None \<Rightarrow> None
                       | Some (vs, r) \<Rightarrow> Some (JArr vs, r)))
          else if c = CHR ''{'' then
            (case skip_ws cs of
               [] \<Rightarrow> None
             | d # ds \<Rightarrow>
                 if d = CHR ''}'' then Some (JObj [], ds)
                 else (case parse_object n cs of
                         None \<Rightarrow> None
                       | Some (kvs, r) \<Rightarrow> Some (JObj kvs, r)))
          else if take 4 (c # cs) = ''null'' then Some (JNull, drop 3 cs)
          else if take 4 (c # cs) = ''true'' then Some (JBool True, drop 3 cs)
          else if take 5 (c # cs) = ''false'' then Some (JBool False, drop 4 cs)
          else (case scan_number (c # cs) of
                  None \<Rightarrow> None
                | Some (t, r) \<Rightarrow> Some (JNum t, r)))"
| "parse_array 0 s = None"
| "parse_array (Suc n) s =
     (case parse_value n s of
        None \<Rightarrow> None
      | Some (v, r) \<Rightarrow>
          (case skip_ws r of
             [] \<Rightarrow> None
           | d # ds \<Rightarrow>
               if d = CHR '','' then
                 (case parse_array n ds of
                    None \<Rightarrow> None
                  | Some (vs, r') \<Rightarrow> Some (v # vs, r'))
               else if d = CHR '']'' then Some ([v], ds)
               else None))"
| "parse_object 0 s = None"
| "parse_object (Suc n) s =
     (case skip_ws s of
        [] \<Rightarrow> None
      | q # qs \<Rightarrow>
          if q \<noteq> dquote then None
          else
            (case parse_string qs of
               None \<Rightarrow> None
             | Some (k, r) \<Rightarrow>
                 (case skip_ws r of
                    [] \<Rightarrow> None
                  | col # r1 \<Rightarrow>
                      if col \<noteq> CHR '':'' then None
                      else
                        (case parse_value n r1 of
                           None \<Rightarrow> None
                         | Some (v, r2) \<Rightarrow>
                             (case skip_ws r2 of
                                [] \<Rightarrow> None
                              | d # ds \<Rightarrow>
                                  if d = CHR '','' then
                                    (case parse_object n ds of
                                       None \<Rightarrow> None
                                     | Some (kvs, r') \<Rightarrow> Some ((k, v) # kvs, r'))
                                  else if d = CHR ''}'' then Some ([(k, v)], ds)
                                  else None)))))"

text \<open>
  The document of a whole text: one value, white space around it and nothing else;
  \<open>None\<close> is the syntax error of \<open>json.Unmarshal\<close>.
\<close>

definition parseJSON :: "string \<Rightarrow> json option" where
  "parseJSON s =
     (case parse_value (2 * length s + 1) s of
        None \<Rightarrow> None
      | Some (v, r) \<Rightarrow> if skip_ws r = [] then Some v else None)"

text \<open>
  The document that is read back from the text of a document: every string, key or
  value, coerced to valid UTF-8. \<open>textual\<close> holds of the documents without numbers.
\<close>

fun coerce_json :: "json \<Rightarrow> json" where
  "coerce_json (JStr s) = JStr (coerceUTF8 s)"
| "coerce_json (JArr vs) = JArr (map coerce_json vs)"
| "coerce_json (JObj kvs) = JObj (map (\<lambda>(k, v). (coerceUTF8 k, coerce_json v)) kvs)"
| "coerce_json j = j"

fun textual :: "json \<Rightarrow> bool" where
  "textual (JNum t) = False"
| "textual (JArr vs) = list_all textual vs"
| "textual (JObj kvs) = list_all (\<lambda>(k, v). textual v) kvs"
| "textual j = True"

section \<open>Formatting with \<open>fmt\<close>\<close>

text \<open>
  \<open>fmt.Errorf\<close> takes its first argument as a format. \<open>doPrintf\<close> below is the
  library's loop of that name for a call without operands: text is copied up to a
  percent sign, and a directive is then read (flags, argument index, width, precision,
  argument index, verb). Without operands a directive prints \<open>%\<close> for the verb
  \<open>%\<close> and a diagnostic for every other one.
\<close>

definition isFlag :: "char \<Rightarrow> bool" where
  "isFlag c = (c = CHR ''#'' \<or> c = CHR ''0'' \<or> c = CHR ''+'' \<or> c = CHR ''-'' \<or> c = CHR '' '')"

definition tooLarge :: "nat \<Rightarrow> bool" where
  "tooLarge x = (x > 1000000)"

fun parsenum_loop :: "nat \<Rightarrow> bool \<Rightarrow> string \<Rightarrow> nat \<times> bool \<times> string" where
  "parsenum_loop num isnum [] = (num, isnum, [])"
| "parsenum_loop num isnum (c # cs) =
     (if isDigit c
      then (if tooLarge num then (0, False, [])
            else parsenum_loop (num * 10 + (byte c - 0x30)) True cs)
      else (num, isnum, c # cs))"

definition parsenum :: "string \<Rightarrow> nat \<times> bool \<times> string" where
  "parsenum s = parsenum_loop 0 False s"

text \<open>
  \<open>parseArgNumber\<close>, from the opening bracket: the number of bytes to skip and
  whether a well-formed index \<open>[n]\<close> was read.
\<close>

definition parseArgNumber :: "string \<Rightarrow> nat \<times> bool" where
  "parseArgNumber f =
     (if length f < 3 then (1, False)
      else
        let inner = takeWhile (\<lambda>c. c \<noteq> CHR '']'') (tl f) in
        if length inner = length (tl f) then (1, False)
        else
          (case parsenum inner of
             (n, ok, rest) \<Rightarrow>
               if \<not> ok \<or> rest \<noteq> [] then (length inner + 2, False)
               else (length inner + 2, True)))"

text \<open>
  \<open>argNumber\<close> with no operand: the text after an index, whether an index was found,
  and whether the argument number has become bad (any bracket makes it so, since no
  index is within range).
\<close>

definition argNumber :: "string \<Rightarrow> string \<times> bool \<times> bool" where
  "argNumber f =
     (case f of
        [] \<Rightarrow> (f, False, False)
      | c # _ \<Rightarrow>
          if c \<noteq> CHR ''['' then (f, False, False)
          else (case parseArgNumber f of (wid, ok) \<Rightarrow> (drop wid f, ok, True)))"

definition directive_width :: "string \<Rightarrow> bool \<Rightarrow> bool \<Rightarrow> string \<times> string \<times> bool \<times> bool" where
  "directive_width f afterIndex bad =
     (if f \<noteq> [] \<and> hd f = CHR ''*'' then (''%!(BADWIDTH)'', tl f, False, bad)
      else
        (case parsenum f of
           (n, present, r) \<Rightarrow> ([], r, afterIndex, bad \<or> (afterIndex \<and> present))))"

definition directive_prec :: "string \<Rightarrow> bool \<Rightarrow> bool \<Rightarrow> string \<times> string \<times> bool \<times> bool" where
  "directive_prec f afterIndex bad =
     (if f \<noteq> [] \<and> hd f = CHR ''.'' then
        (case argNumber (tl f) of
           (g, found, badA) \<Rightarrow>
             if g \<noteq> [] \<and> hd g = CHR ''*''
             then (''%!(BADPREC)'', tl g, False, bad \<or> afterIndex \<or> badA)
             else
               (case parsenum g of
                  (n, present, r) \<Rightarrow> ([], r, found, bad \<or> afterIndex \<or> badA)))
      else ([], f, afterIndex, bad))"

text \<open>
  One directive, from after its percent sign: what it prints and the format that
  remains.
\<close>

definition directive :: "string \<Rightarrow> string \<times> string" where
  "directive f0 =
     (case argNumber (dropWhile isFlag f0) of
        (f2, afterIndex1, bad1) \<Rightarrow>
          (case directive_width f2 afterIndex1 bad1 of
             (out_w, f3, afterIndex2, bad2) \<Rightarrow>
               (case directive_prec f3 afterIndex2 bad2 of
                  (out_p, f4, afterIndex3, bad3) \<Rightarrow>
                    (case (if \<not> afterIndex3
                           then (case argNumber f4 of
                                   (g, found, badA) \<Rightarrow> (g, bad3 \<or> badA))
                           else (f4, bad3)) of
                       (f5, bad4) \<Rightarrow>
                         (case f5 of
                            [] \<Rightarrow> (out_w @ out_p @ ''%!(NOVERB)'', [])
                          | c # cs \<Rightarrow>
                              (case (if 0x80 \<le> byte c then DecodeRuneInString f5
                                     else (byte c, 1)) of
                                 (verb, w) \<Rightarrow>
                                   if verb = 0x25 then (out_w @ out_p @ ''%'', drop (w - 1) cs)
                                   else if bad4
                                   then (out_w @ out_p @ ''%!'' @ EncodeRune verb @ ''(BADINDEX)'',
                                         drop (w - 1) cs)
                                   else (out_w @ out_p @ ''%!'' @ EncodeRune verb @ ''(MISSING)'',
                                         drop (w - 1) cs)))))))"

lemma parsenum_loop_length:
  "parsenum_loop num isnum s = (n, ok, r) \<Longrightarrow> length r \<le> length s"
  by (induction num isnum s rule: parsenum_loop.induct) (auto split: if_splits)

lemma argNumber_length: "argNumber f = (g, found, bad) \<Longrightarrow> length g \<le> length f"
  by (auto simp: argNumber_def split: list.splits if_splits prod.splits)

lemma directive_width_length:
  "directive_width f a b = (out, g, a', b') \<Longrightarrow> length g \<le> length f"
  by (auto simp: directive_width_def parsenum_def split: if_splits prod.splits
           dest: parsenum_loop_length)

lemma directive_prec_length:
  "directive_prec f a b = (out, g, a', b') \<Longrightarrow> length g \<le> length f"
proof -
  assume h: "directive_prec f a b = (out, g, a', b')"
  show ?thesis
  proof (cases "f \<noteq> [] \<and> hd f = CHR ''.''")
    case False
    with h show ?thesis by (auto simp: directive_prec_def)
  next
    case True
    obtain g1 found badA where an: "argNumber (tl f) = (g1, found, badA)"
      by (cases "argNumber (tl f)") auto
    have l1: "length g1 \<le> length (tl f)" using an by (rule argNumber_length)
    have "length g \<le> length g1"
    proof (cases "g1 \<noteq> [] \<and> hd g1 = CHR ''*''")
      case True
      with h \<open>f \<noteq> [] \<and> hd f = CHR ''.''\<close> an show ?thesis
        by (auto simp: directive_prec_def)
    next
      case False
      obtain n present r where pn: "parsenum g1 = (n, present, r)"
        by (cases "parsenum g1") auto
      have "length r \<le> length g1"
        using pn unfolding parsenum_def by (rule parsenum_loop_length)
      with h True an False pn show ?thesis
        by (auto simp: directive_prec_def)
    qed
    with l1 show ?thesis by simp
  qed
qed

lemma directive_length: "directive f = (out, r) \<Longrightarrow> length r \<le> length f"
proof -
  assume h: "directive f = (out, r)"
  obtain f2 a1 b1 where s1: "argNumber (dropWhile isFlag f) = (f2, a1, b1)"
    by (cases "argNumber (dropWhile isFlag f)") auto
  obtain ow f3 a2 b2 where s2: "directive_width f2 a1 b1 = (ow, f3, a2, b2)"
    by (cases "directive_width f2 a1 b1") auto
  obtain op f4 a3 b3 where s3: "directive_prec f3 a2 b2 = (op, f4, a3, b3)"
    by (cases "directive_prec f3 a2 b2") auto
  obtain f5 b4 where s4:
    "(if \<not> a3 then (case argNumber f4 of (g, found, badA) \<Rightarrow> (g, b3 \<or> badA)) else (f4, b3))
       = (f5, b4)"
    by (cases "(if \<not> a3 then (case argNumber f4 of (g, found, badA) \<Rightarrow> (g, b3 \<or> badA))
                else (f4, b3))") auto
  have l0: "length (dropWhile isFlag f) \<le> length f" by (rule length_dropWhile_le)
  have l1: "length f2 \<le> length (dropWhile isFlag f)" using s1 by (rule argNumber_length)
  have l2: "length f3 \<le> length f2" using s2 by (rule directive_width_length)
  have l3: "length f4 \<le> length f3" using s3 by (rule directive_prec_length)
  have l4: "length f5 \<le> length f4"
    using s4 by (auto split: if_splits prod.splits dest: argNumber_length)
  have l5: "length r \<le> length f5"
    using h s1 s2 s3 s4 by (auto simp: directive_def split: list.splits prod.splits if_splits)
  from l0 l1 l2 l3 l4 l5 show ?thesis by linarith
qed

function doPrintf :: "string \<Rightarrow> string" where
  "doPrintf [] = []"
| "doPrintf (c # cs) =
     (if c \<noteq> CHR ''%'' then c # doPrintf cs
      else (case directive cs of (out, rest) \<Rightarrow> out @ doPrintf rest))"
  by pat_completeness auto
termination
  by (relation "measure length") (auto dest!: directive_length [OF sym])

section \<open>The package \<open>openfigi\<close>\<close>

subsection \<open>Errors\<close>

datatype json_error = SyntaxError | UnmarshalTypeError

text \<open>
  The five errors of the package, and the other errors \<open>Do\<close> can return: an error made
  by \<open>fmt.Errorf\<close> (with its text), an error of \<open>json.Unmarshal\<close>, an error of the HTTP
  client or of reading the response, and an error of the Redis connection.
\<close>

datatype error =
    ErrNotValidIdentifier
  | ErrWrongStatus
  | ErrAPIError
  | ErrNoIdentifierFound
  | ErrCacheError
  | ErrorString string
  | JSONError json_error
  | TransportError string
  | RedisError string

definition Errorf :: "string \<Rightarrow> error" where
  "Errorf format = ErrorString (doPrintf format)"

subsection \<open>Data\<close>

text \<open>
  The two structs of the package. The fields \<open>MarketSector\<close> and \<open>ExchangeCode\<close>
  of \<open>FIGI\<close> carry a prime here, since \<open>FIGIRequest\<close> has fields of the same names.
  The timeout is a \<open>time.Duration\<close>, a number of nanoseconds.
\<close>

record FIGI =
  FIGI :: string
  SecurityType :: string
  MarketSector' :: string
  Ticker :: string
  Name :: string
  UniqueID :: string
  ExchangeCode' :: string
  ShareClassFIGI :: string
  CompositeFIGI :: string
  SecurityType2 :: string
  SecurityDescription :: string
  UniqueIDFutOpt :: string

record FIGIRequest =
  IDType :: string
  IDValue :: string
  ExchangeCode :: string
  MICCode :: string
  Currency :: string
  MarketSector :: string
  apiKey :: string
  timeout :: int

text \<open>
  A value of type \<open>[]*FIGI\<close>: \<open>None\<close> is the nil slice, and an element \<open>None\<close> a nil
  pointer.
\<close>

type_synonym figis = "FIGI option list option"

definition apiURL :: string where
  "apiURL = ''https://api.openfigi.com/v1/mapping''"

text \<open>\<open>10 * time.Second\<close>, in nanoseconds.\<close>

definition defaultTimeout :: int where
  "defaultTimeout = 10 * 1000000000"

definition ValidIdentifiers :: "string list" where
  "ValidIdentifiers =
     [''ID_ISIN'',
      ''ID_BB_UNIQUE'',
      ''ID_SEDOL'',
      ''ID_COMMON'',
      ''ID_WERTPAPIER'',
      ''ID_CUSIP'',
      ''ID_CINS'',
      ''ID_BB'',
      ''ID_ITALY'',
      ''ID_EXCH_SYMBOL'',
      ''ID_FULL_EXCHANGE_SYMBOL'',
      ''COMPOSITE_ID_BB_GLOBAL'',
      ''ID_BB_GLOBAL_SHARE_CLASS_LEVEL'',
      ''ID_BB_GLOBAL'',
      ''ID_BB_SEC_NUM_DES'',
      ''TICKER'',
      ''ID_CUSIP_8_CHR'',
      ''OCC_SYMBOL'',
      ''UNIQUE_ID_FUT_OPT'',
      ''OPRA_SYMBOL'',
      ''TRADING_SYSTEM_IDENTIFIER'']"

subsection \<open>\<open>json.Marshal\<close> of the package's types\<close>

text \<open>
  Every field of \<open>FIGIRequest\<close> has the \<open>omitempty\<close> option: a field is a member of
  the object when its string is not empty. The two private fields are not encoded.
\<close>

definition omitempty :: "(string \<times> string) list \<Rightarrow> (string \<times> json) list" where
  "omitempty fs = map (\<lambda>(k, v). (k, JStr v)) (filter (\<lambda>(k, v). v \<noteq> []) fs)"

text \<open>The exported fields of a request with their names in JSON, in the order of the
  struct.\<close>

definition requestFields :: "FIGIRequest \<Rightarrow> (string \<times> string) list" where
  "requestFields fr =
     [(''idType'', IDType fr),
      (''idValue'', IDValue fr),
      (''exchCode'', ExchangeCode fr),
      (''micCode'', MICCode fr),
      (''currency'', Currency fr),
      (''marketSecDes'', MarketSector fr)]"

definition requestJSON :: "FIGIRequest \<Rightarrow> json" where
  "requestJSON fr = JObj (omitempty (requestFields fr))"

text \<open>\<open>json.Marshal\<close> of a \<open>[]*FIGIRequest\<close> whose pointers are not nil.\<close>

definition MarshalRequests :: "FIGIRequest list \<Rightarrow> string" where
  "MarshalRequests frs = render (JArr (map requestJSON frs))"

definition figiJSON :: "FIGI \<Rightarrow> json" where
  "figiJSON r =
     JObj
       [(''figi'', JStr (FIGI r)),
        (''securityType'', JStr (SecurityType r)),
        (''marketSector'', JStr (MarketSector' r)),
        (''ticker'', JStr (Ticker r)),
        (''name'', JStr (Name r)),
        (''uniqueID'', JStr (UniqueID r)),
        (''exchCode'', JStr (ExchangeCode' r)),
        (''shareClassFIGI'', JStr (ShareClassFIGI r)),
        (''compositeFIGI'', JStr (CompositeFIGI r)),
        (''securityType2'', JStr (SecurityType2 r)),
        (''securityDescription'', JStr (SecurityDescription r)),
        (''uniqueIDFutOpt'', JStr (UniqueIDFutOpt r))]"

definition figisJSON :: "figis \<Rightarrow> json" where
  "figisJSON d =
     (case d of
        None \<Rightarrow> JNull
      | Some rs \<Rightarrow> JArr (map (\<lambda>x. case x of None \<Rightarrow> JNull | Some r \<Rightarrow> figiJSON r) rs))"

definition MarshalFIGIs :: "figis \<Rightarrow> string" where
  "MarshalFIGIs d = render (figisJSON d)"

subsection \<open>\<open>json.Unmarshal\<close> into the package's types\<close>

text \<open>
  \<open>json.Unmarshal\<close> first checks the syntax of the whole text, then stores the document
  into the target by the target's type. A value that does not fit the type makes the
  call return an error (the value decoded so far is not used by this package, so the
  functions below stop there). \<open>None\<close> is that error.
\<close>

fun traverse :: "('a \<Rightarrow> 'b option) \<Rightarrow> 'a list \<Rightarrow> 'b list option" where
  "traverse f [] = Some []"
| "traverse f (x # xs) =
     (case f x of
        None \<Rightarrow> None
      | Some y \<Rightarrow> (case traverse f xs of None \<Rightarrow> None | Some ys \<Rightarrow> Some (y # ys)))"

text \<open>
  The matching of an object key with a field name when they are not equal
  (\<open>equalFoldRight\<close> of the library): ASCII letters match without regard to case, and
  the Kelvin sign and the long s match \<open>k\<close> and \<open>s\<close>.
\<close>

definition isLetter :: "char \<Rightarrow> bool" where
  "isLetter c = ((0x41 \<le> byte c \<and> byte c \<le> 0x5A) \<or> (0x61 \<le> byte c \<and> byte c \<le> 0x7A))"

definition toUpper :: "char \<Rightarrow> nat" where
  "toUpper c = (if 0x61 \<le> byte c \<and> byte c \<le> 0x7A then byte c - 0x20 else byte c)"

fun equalFold :: "string \<Rightarrow> string \<Rightarrow> bool" where
  "equalFold [] t = (t = [])"
| "equalFold (sb # s) [] = False"
| "equalFold (sb # s) (tb # t) =
     (if byte tb < 0x80 then
        (if sb \<noteq> tb \<and> \<not> (isLetter sb \<and> isLetter tb \<and> toUpper sb = toUpper tb) then False
         else equalFold s t)
      else
        (case DecodeRuneInString (tb # t) of
           (tr, w) \<Rightarrow>
             if (toUpper sb = 0x53 \<and> tr = 0x17F) \<or> (toUpper sb = 0x4B \<and> tr = 0x212A)
             then equalFold s (drop (w - 1) t)
             else False))"

definition figiFields :: "(string \<times> (string \<Rightarrow> FIGI \<Rightarrow> FIGI)) list" where
  "figiFields =
     [(''figi'', \<lambda>v r. r\<lparr>FIGI := v\<rparr>),
      (''securityType'', \<lambda>v r. r\<lparr>SecurityType := v\<rparr>),
      (''marketSector'', \<lambda>v r. r\<lparr>MarketSector' := v\<rparr>),
      (''ticker'', \<lambda>v r. r\<lparr>Ticker := v\<rparr>),
      (''name'', \<lambda>v r. r\<lparr>Name := v\<rparr>),
      (''uniqueID'', \<lambda>v r. r\<lparr>UniqueID := v\<rparr>),
      (''exchCode'', \<lambda>v r. r\<lparr>ExchangeCode' := v\<rparr>),
      (''shareClassFIGI'', \<lambda>v r. r\<lparr>ShareClassFIGI := v\<rparr>),
      (''compositeFIGI'', \<lambda>v r. r\<lparr>CompositeFIGI := v\<rparr>),
      (''securityType2'', \<lambda>v r. r\<lparr>SecurityType2 := v\<rparr>),
      (''securityDescription'', \<lambda>v r. r\<lparr>SecurityDescription := v\<rparr>),
      (''uniqueIDFutOpt'', \<lambda>v r. r\<lparr>UniqueIDFutOpt := v\<rparr>)]"

text \<open>The field an object key stores into: the field of that name, else the first
  field that matches it.\<close>

definition findField :: "string \<Rightarrow> (string \<Rightarrow> FIGI \<Rightarrow> FIGI) option" where
  "findField key =
     (case find (\<lambda>p. fst p = key) figiFields of
        Some p \<Rightarrow> Some (snd p)
      | None \<Rightarrow> map_option snd (find (\<lambda>p. equalFold (fst p) key) figiFields))"

definition zeroFIGI :: FIGI where
  "zeroFIGI =
     \<lparr>FIGI = [], SecurityType = [], MarketSector' = [], Ticker = [], Name = [],
      UniqueID = [], ExchangeCode' = [], ShareClassFIGI = [], CompositeFIGI = [],
      SecurityType2 = [], SecurityDescription = [], UniqueIDFutOpt = []\<rparr>"

text \<open>
  The members of an object stored into a \<open>FIGI\<close>, in their order: a string sets its
  field, \<open>null\<close> leaves it, any other value is an error; the value of a key that
  matches no field is skipped.
\<close>

fun decode_FIGI_members :: "(string \<times> json) list \<Rightarrow> FIGI \<Rightarrow> FIGI option" where
  "decode_FIGI_members [] r = Some r"
| "decode_FIGI_members ((k, v) # kvs) r =
     (case findField k of
        None \<Rightarrow> decode_FIGI_members kvs r
      | Some store \<Rightarrow>
          (case v of
             JStr s \<Rightarrow> decode_FIGI_members kvs (store s r)
           | JNull \<Rightarrow> decode_FIGI_members kvs r
           | _ \<Rightarrow> None))"

definition decode_FIGI_ptr :: "json \<Rightarrow> FIGI option option" where
  "decode_FIGI_ptr j =
     (case j of
        JNull \<Rightarrow> Some None
      | JObj kvs \<Rightarrow> map_option Some (decode_FIGI_members kvs zeroFIGI)
      | _ \<Rightarrow> None)"

definition decode_FIGIs :: "json \<Rightarrow> figis option" where
  "decode_FIGIs j =
     (case j of
        JNull \<Rightarrow> Some None
      | JArr vs \<Rightarrow> map_option Some (traverse decode_FIGI_ptr vs)
      | _ \<Rightarrow> None)"

definition decode_string :: "json \<Rightarrow> string option" where
  "decode_string j = (case j of JStr s \<Rightarrow> Some s | JNull \<Rightarrow> Some [] | _ \<Rightarrow> None)"

text \<open>
  A Go map with string keys: each member of the object is decoded into a fresh element
  and stored under its key, so the last member of a key stays. A nil map reads like an
  empty one and is not told apart here.
\<close>

fun decode_members :: "(json \<Rightarrow> 'v option) \<Rightarrow> (string \<times> json) list \<Rightarrow> (string \<rightharpoonup> 'v)
    \<Rightarrow> (string \<rightharpoonup> 'v) option" where
  "decode_members dec [] m = Some m"
| "decode_members dec ((k, v) # kvs) m =
     (case dec v of
        None \<Rightarrow> None
      | Some x \<Rightarrow> decode_members dec kvs (m(k \<mapsto> x)))"

definition decode_map :: "(json \<Rightarrow> 'v option) \<Rightarrow> json \<Rightarrow> (string \<rightharpoonup> 'v) option" where
  "decode_map dec j =
     (case j of
        JNull \<Rightarrow> Some Map.empty
      | JObj kvs \<Rightarrow> decode_members dec kvs Map.empty
      | _ \<Rightarrow> None)"

text \<open>A slice of which only the length and the elements are read: nil is the empty
  list.\<close>

definition decode_slice :: "(json \<Rightarrow> 'v option) \<Rightarrow> json \<Rightarrow> 'v list option" where
  "decode_slice dec j =
     (case j of
        JNull \<Rightarrow> Some []
      | JArr vs \<Rightarrow> traverse dec vs
      | _ \<Rightarrow> None)"

definition Unmarshal :: "(json \<Rightarrow> 'a option) \<Rightarrow> string \<Rightarrow> json_error + 'a" where
  "Unmarshal dec text =
     (case parseJSON text of
        None \<Rightarrow> Inl SyntaxError
      | Some j \<Rightarrow> (case dec j of None \<Rightarrow> Inl UnmarshalTypeError | Some x \<Rightarrow> Inr x))"

text \<open>Reading a Go map: the zero value for a key that is absent.\<close>

definition index :: "(string \<rightharpoonup> 'v) \<Rightarrow> string \<Rightarrow> 'v \<Rightarrow> 'v" where
  "index m k zero = (case m k of None \<Rightarrow> zero | Some v \<Rightarrow> v)"

text \<open>
  Records whose strings are all valid UTF-8 (coercing them changes nothing), as every
  record decoded from a JSON text is.
\<close>

definition validFIGI :: "FIGI \<Rightarrow> bool" where
  "validFIGI r =
     (coerceUTF8 (FIGI r) = FIGI r \<and> coerceUTF8 (SecurityType r) = SecurityType r
      \<and> coerceUTF8 (MarketSector' r) = MarketSector' r \<and> coerceUTF8 (Ticker r) = Ticker r
      \<and> coerceUTF8 (Name r) = Name r \<and> coerceUTF8 (UniqueID r) = UniqueID r
      \<and> coerceUTF8 (ExchangeCode' r) = ExchangeCode' r
      \<and> coerceUTF8 (ShareClassFIGI r) = ShareClassFIGI r
      \<and> coerceUTF8 (CompositeFIGI r) = CompositeFIGI r
      \<and> coerceUTF8 (SecurityType2 r) = SecurityType2 r
      \<and> coerceUTF8 (SecurityDescription r) = SecurityDescription r
      \<and> coerceUTF8 (UniqueIDFutOpt r) = UniqueIDFutOpt r)"

definition valid_ptr :: "FIGI option \<Rightarrow> bool" where
  "valid_ptr x = (case x of None \<Rightarrow> True | Some r \<Rightarrow> validFIGI r)"

definition valid_figis :: "figis \<Rightarrow> bool" where
  "valid_figis d = (case d of None \<Rightarrow> True | Some rs \<Rightarrow> list_all valid_ptr rs)"

subsection \<open>The world outside: the HTTP transport and the Redis store\<close>

record http_request =
  http_method :: string
  url :: string
  header :: "(string \<times> string) list"
  reqbody :: string
  client_timeout :: int

datatype body_read = ReadError string | Body string

datatype http_result = DoError string | Response int body_read

text \<open>
  The state \<open>Do\<close> runs in: the package variable \<open>rpool\<close> (\<open>None\<close> is nil, otherwise the
  address the pool dials), the content of the Redis store, the error (if any) with
  which the store answers a \<open>GET\<close> and a \<open>SET\<close>, the answer of the network to a request,
  and the requests sent so far.
\<close>

record world =
  rpool :: "string option"
  redis_data :: "string \<rightharpoonup> string"
  redis_get_error :: "string option"
  redis_set_error :: "string option"
  transport :: "http_request \<Rightarrow> http_result"
  http_calls :: "http_request list"

definition redis_GET :: "world \<Rightarrow> string \<Rightarrow> string + string option" where
  "redis_GET w key =
     (case redis_get_error w of Some e \<Rightarrow> Inl e | None \<Rightarrow> Inr (redis_data w key))"

definition redis_SET :: "world \<Rightarrow> string \<Rightarrow> string \<Rightarrow> string + world" where
  "redis_SET w key val =
     (case redis_set_error w of
        Some e \<Rightarrow> Inl e
      | None \<Rightarrow> Inr (w\<lparr>redis_data := (redis_data w)(key \<mapsto> val)\<rparr>))"

definition Header_Set :: "string \<Rightarrow> string \<Rightarrow> (string \<times> string) list \<Rightarrow> (string \<times> string) list" where
  "Header_Set k v h = filter (\<lambda>p. fst p \<noteq> k) h @ [(k, v)]"

definition Header_Get :: "(string \<times> string) list \<Rightarrow> string \<Rightarrow> string option" where
  "Header_Get h k = map_of h k"

subsection \<open>The functions of the package\<close>

primrec isValidIdentifier_loop :: "string \<Rightarrow> string list \<Rightarrow> bool" where
  "isValidIdentifier_loop v [] = False"
| "isValidIdentifier_loop v (i # is) = (if v = i then True else isValidIdentifier_loop v is)"

definition isValidIdentifier :: "string \<Rightarrow> bool" where
  "isValidIdentifier v = isValidIdentifier_loop v ValidIdentifiers"

definition NewRequest :: "string \<Rightarrow> string \<Rightarrow> error + FIGIRequest" where
  "NewRequest idtype idvalue =
     (if \<not> isValidIdentifier idtype then Inl ErrNotValidIdentifier
      else Inr \<lparr>IDType = idtype, IDValue = idvalue, ExchangeCode = [], MICCode = [],
                Currency = [], MarketSector = [], apiKey = [], timeout = defaultTimeout\<rparr>)"

definition APIKey :: "string \<Rightarrow> FIGIRequest \<Rightarrow> FIGIRequest" where
  "APIKey key fr = fr\<lparr>apiKey := key\<rparr>"

definition Exchange :: "string \<Rightarrow> FIGIRequest \<Rightarrow> FIGIRequest" where
  "Exchange exch fr = fr\<lparr>ExchangeCode := exch\<rparr>"

definition RedisCache :: "string \<Rightarrow> world \<Rightarrow> world" where
  "RedisCache addr w = w\<lparr>rpool := Some addr\<rparr>"

definition getCache :: "string \<Rightarrow> world \<Rightarrow> error + figis" where
  "getCache key w =
     (case rpool w of
        None \<Rightarrow> Inr None
      | Some addr \<Rightarrow>
          (case redis_GET w key of
             Inl e \<Rightarrow> Inl (RedisError e)
           | Inr None \<Rightarrow> Inr None
           | Inr (Some b) \<Rightarrow>
               (case Unmarshal decode_FIGIs b of
                  Inl e \<Rightarrow> Inl (JSONError e)
                | Inr data \<Rightarrow> Inr data)))"

definition setCache :: "string \<Rightarrow> figis \<Rightarrow> world \<Rightarrow> error + world" where
  "setCache key data w =
     (case rpool w of
        None \<Rightarrow> Inr w
      | Some addr \<Rightarrow>
          (case redis_SET w key (MarshalFIGIs data) of
             Inl e \<Rightarrow> Inl (RedisError e)
           | Inr w' \<Rightarrow> Inr w'))"

text \<open>The request \<open>Do\<close> hands to the HTTP client.\<close>

definition httpRequest :: "FIGIRequest \<Rightarrow> string \<Rightarrow> http_request" where
  "httpRequest fr js =
     \<lparr>http_method = ''POST'', url = apiURL,
      header =
        (let h = Header_Set ''Content-Type'' ''application/json'' []
         in if apiKey fr \<noteq> [] then Header_Set ''X-OPENFIGI-APIKEY'' (apiKey fr) h else h),
      reqbody = js, client_timeout = timeout fr\<rparr>"

text \<open>
  The part of \<open>Do\<close> after the body has been read: the two attempts at decoding it, and
  the write to the cache.
\<close>

definition classify :: "string \<Rightarrow> string \<Rightarrow> world \<Rightarrow> (error + figis) \<times> world" where
  "classify js body w =
     (case Unmarshal (decode_slice (decode_map decode_FIGIs)) body of
        Inl err \<Rightarrow>
          (case Unmarshal (decode_slice (decode_map decode_string)) body of
             Inl err' \<Rightarrow> (Inl (JSONError err'), w)
           | Inr data \<Rightarrow>
               (case data of
                  [] \<Rightarrow> (Inl ErrAPIError, w)
                | d0 # _ \<Rightarrow>
                    let e = index d0 ''error'' [] in
                    if e = ''No identifier found.'' then (Inl ErrNoIdentifierFound, w)
                    else if e \<noteq> [] then (Inl (Errorf (index d0 ''error'' [])), w)
                    else (Inl ErrAPIError, w)))
      | Inr data \<Rightarrow>
          (case data of
             [] \<Rightarrow> (Inl ErrAPIError, w)
           | d0 # _ \<Rightarrow>
               (case setCache js (index d0 ''data'' None) w of
                  Inl err \<Rightarrow> (Inl ErrCacheError, w)
                | Inr w' \<Rightarrow> (Inr (index d0 ''data'' None), w'))))"

definition Do :: "FIGIRequest \<Rightarrow> world \<Rightarrow> (error + figis) \<times> world" where
  "Do fr w =
     (let js = MarshalRequests [fr] in
      case getCache js w of
        Inl err \<Rightarrow> (Inl err, w)
      | Inr cached \<Rightarrow>
          if cached \<noteq> None then (Inr cached, w)
          else
            let req = httpRequest fr js;
                w1 = w\<lparr>http_calls := http_calls w @ [req]\<rparr>
            in
            (case transport w req of
               DoError err \<Rightarrow> (Inl (TransportError err), w1)
             | Response status b \<Rightarrow>
                 if status \<noteq> 200 then (Inl ErrWrongStatus, w1)
                 else
                   (case b of
                      ReadError err \<Rightarrow> (Inl (TransportError err), w1)
                    | Body body \<Rightarrow> classify js body w1)))"

subsection \<open>Sample inputs\<close>

definition ex_request :: FIGIRequest where
  "ex_request =
     \<lparr>IDType = ''ID_ISIN'', IDValue = ''US3623931009'', ExchangeCode = ''US'', MICCode = [],
      Currency = [], MarketSector = [], apiKey = [], timeout = defaultTimeout\<rparr>"

text \<open>
  A world with an empty store that answers every request alike, with the Redis pool
  and the error of a \<open>SET\<close> as given.
\<close>

definition ex_world :: "string option \<Rightarrow> string option \<Rightarrow> http_result \<Rightarrow> world" where
  "ex_world pool set_err answer =
     \<lparr>rpool = pool, redis_data = Map.empty, redis_get_error = None,
      redis_set_error = set_err, transport = (\<lambda>_. answer), http_calls = []\<rparr>"

definition ex_record :: FIGI where
  "ex_record = zeroFIGI\<lparr>FIGI := ''BBG000BLNNH6'', Ticker := ''GTT''\<rparr>"

definition ex_body :: string where
  "ex_body = ''[{\"data\":[{\"figi\":\"BBG000BLNNH6\",\"ticker\":\"GTT\"}]}]''"

section \<open>Properties of the encoding\<close>

subsection \<open>UTF-8\<close>

lemma mkbyte_byte [simp]: "mkbyte (byte c) = c"
  by (simp add: mkbyte_def byte_def)

lemma byte_mkbyte: "n < 256 \<Longrightarrow> byte (mkbyte n) = n"
  by (simp add: mkbyte_def byte_def)

lemma byte_less_256 [simp]: "byte c < 256"
  by (simp add: byte_def)

lemma digits2:
  fixes a b :: nat
  assumes "b < 64"
  shows "(a * 64 + b) div 64 = a" "(a * 64 + b) mod 64 = b"
  using assms by simp_all

lemma digits3:
  fixes a b c :: nat
  assumes "b < 64" "c < 64"
  shows "(a * 4096 + b * 64 + c) div 4096 = a"
    and "((a * 4096 + b * 64 + c) div 64) mod 64 = b"
    and "(a * 4096 + b * 64 + c) mod 64 = c"
proof -
  have e: "a * 4096 + b * 64 + c = (a * 64 + b) * 64 + c" by simp
  have d: "(a * 4096 + b * 64 + c) div 64 = a * 64 + b"
    using digits2(1) [OF assms(2), of "a * 64 + b"] by (simp only: e)
  show "((a * 4096 + b * 64 + c) div 64) mod 64 = b"
    unfolding d using assms(1) by simp
  show "(a * 4096 + b * 64 + c) mod 64 = c"
    using digits2(2) [OF assms(2), of "a * 64 + b"] by (simp only: e)
  have "(a * 4096 + b * 64 + c) div 4096 = ((a * 4096 + b * 64 + c) div 64) div 64"
    by (simp add: div_mult2_eq [symmetric])
  also have "\<dots> = a" unfolding d using assms(1) by simp
  finally show "(a * 4096 + b * 64 + c) div 4096 = a" .
qed

lemma digits4:
  fixes a b c d :: nat
  assumes "b < 64" "c < 64" "d < 64"
  shows "(a * 262144 + b * 4096 + c * 64 + d) div 262144 = a"
    and "((a * 262144 + b * 4096 + c * 64 + d) div 4096) mod 64 = b"
    and "((a * 262144 + b * 4096 + c * 64 + d) div 64) mod 64 = c"
    and "(a * 262144 + b * 4096 + c * 64 + d) mod 64 = d"
proof -
  let ?r = "a * 262144 + b * 4096 + c * 64 + d"
  have e: "?r = ((a * 64 + b) * 64 + c) * 64 + d" by simp
  have d1: "?r div 64 = (a * 64 + b) * 64 + c"
    using digits2(1) [OF assms(3), of "(a * 64 + b) * 64 + c"] by (simp only: e)
  have d2: "?r div 4096 = a * 64 + b"
  proof -
    have "?r div 4096 = (?r div 64) div 64" by (simp add: div_mult2_eq [symmetric])
    also have "\<dots> = a * 64 + b"
      using digits2(1) [OF assms(2), of "a * 64 + b"] by (simp only: d1)
    finally show ?thesis .
  qed
  show "(?r div 4096) mod 64 = b" unfolding d2 using assms(1) by simp
  show "(?r div 64) mod 64 = c"
    using digits2(2) [OF assms(2), of "a * 64 + b"] by (simp only: d1)
  show "?r mod 64 = d"
    using digits2(2) [OF assms(3), of "(a * 64 + b) * 64 + c"] by (simp only: e)
  have "?r div 262144 = (?r div 4096) div 64" by (simp add: div_mult2_eq [symmetric])
  also have "\<dots> = a" unfolding d2 using assms(1) by simp
  finally show "?r div 262144 = a" .
qed

lemma mod_offset:
  fixes a k m :: nat
  assumes "a < m"
  shows "(k * m + a) mod m = a"
  using assms by simp

lemma EncodeRune_2:
  assumes "0xC2 \<le> s0" "s0 \<le> 0xDF" "0x80 \<le> s1" "s1 \<le> 0xBF"
  shows "EncodeRune ((s0 mod 32) * 64 + s1 mod 64) = [mkbyte s0, mkbyte s1]"
proof -
  define a where "a = s0 - 0xC0"
  define b where "b = s1 - 0x80"
  have s: "s0 = 0xC0 + a" "s1 = 0x80 + b" and r: "2 \<le> a" "a < 32" "b < 64"
    using assms by (auto simp: a_def b_def)
  have m: "s0 mod 32 = a" "s1 mod 64 = b"
    using mod_offset [OF r(2), of 6] mod_offset [OF r(3), of 2] by (simp_all add: s)
  have g: "\<not> a * 64 + b \<le> 0x7F" "a * 64 + b \<le> 0x7FF" using r by linarith+
  show ?thesis
    unfolding m EncodeRune_def using g digits2 [OF r(3), of a] by (simp add: s)
qed

lemma EncodeRune_3:
  assumes "0xE0 \<le> s0" "s0 \<le> 0xEF" "0x80 \<le> s1" "s1 \<le> 0xBF" "0x80 \<le> s2" "s2 \<le> 0xBF"
    and "s0 = 0xE0 \<Longrightarrow> 0xA0 \<le> s1" and "s0 = 0xED \<Longrightarrow> s1 \<le> 0x9F"
  shows "EncodeRune ((s0 mod 16) * 4096 + (s1 mod 64) * 64 + s2 mod 64)
           = [mkbyte s0, mkbyte s1, mkbyte s2]"
proof -
  define a where "a = s0 - 0xE0"
  define b where "b = s1 - 0x80"
  define c where "c = s2 - 0x80"
  have s: "s0 = 0xE0 + a" "s1 = 0x80 + b" "s2 = 0x80 + c" and r: "a < 16" "b < 64" "c < 64"
    using assms(1-6) by (auto simp: a_def b_def c_def)
  have lo: "a = 0 \<Longrightarrow> 32 \<le> b" and hi: "a = 13 \<Longrightarrow> b \<le> 31"
    using assms(7,8) s by auto
  have m: "s0 mod 16 = a" "s1 mod 64 = b" "s2 mod 64 = c"
    using mod_offset [OF r(1), of 14] mod_offset [OF r(2), of 2] mod_offset [OF r(3), of 2]
    by (simp_all add: s)
  let ?r = "a * 4096 + b * 64 + c"
  have g1: "\<not> ?r \<le> 0x7FF"
  proof (cases "a = 0")
    case True
    with lo r show ?thesis by simp
  next
    case False
    then have "1 \<le> a" by simp
    then have "4096 \<le> a * 4096" by simp
    then show ?thesis by linarith
  qed
  have g2: "?r \<le> 0xFFFF" using r by linarith
  have g3: "\<not> (0xD800 \<le> ?r \<and> ?r \<le> 0xDFFF)"
  proof (cases "a = 13")
    case True
    with hi r show ?thesis by simp
  next
    case False
    then consider "a \<le> 12" | "14 \<le> a" by linarith
    then show ?thesis
    proof cases
      case 1
      then have "a * 4096 \<le> 12 * 4096" by simp
      with r show ?thesis by linarith
    next
      case 2
      then have "14 * 4096 \<le> a * 4096" by simp
      then show ?thesis by linarith
    qed
  qed
  have g: "\<not> ?r \<le> 0x7F" "\<not> 0x10FFFF < ?r" using g1 g2 by linarith+
  show ?thesis
    unfolding m EncodeRune_def using g g1 g2 g3 digits3 [OF r(2) r(3), of a] by (auto simp: s)
qed

lemma EncodeRune_4:
  assumes "0xF0 \<le> s0" "s0 \<le> 0xF4" "0x80 \<le> s1" "s1 \<le> 0xBF" "0x80 \<le> s2" "s2 \<le> 0xBF"
    and "0x80 \<le> s3" "s3 \<le> 0xBF"
    and "s0 = 0xF0 \<Longrightarrow> 0x90 \<le> s1" and "s0 = 0xF4 \<Longrightarrow> s1 \<le> 0x8F"
  shows "EncodeRune ((s0 mod 8) * 262144 + (s1 mod 64) * 4096 + (s2 mod 64) * 64 + s3 mod 64)
           = [mkbyte s0, mkbyte s1, mkbyte s2, mkbyte s3]"
proof -
  define a where "a = s0 - 0xF0"
  define b where "b = s1 - 0x80"
  define c where "c = s2 - 0x80"
  define d where "d = s3 - 0x80"
  have s: "s0 = 0xF0 + a" "s1 = 0x80 + b" "s2 = 0x80 + c" "s3 = 0x80 + d"
    and r: "a < 8" "b < 64" "c < 64" "d < 64" and a4: "a \<le> 4"
    using assms(1-8) by (auto simp: a_def b_def c_def d_def)
  have lo: "a = 0 \<Longrightarrow> 16 \<le> b" and hi: "a = 4 \<Longrightarrow> b \<le> 15"
    using assms(9,10) s by auto
  have m: "s0 mod 8 = a" "s1 mod 64 = b" "s2 mod 64 = c" "s3 mod 64 = d"
    using mod_offset [OF r(1), of 30] mod_offset [OF r(2), of 2] mod_offset [OF r(3), of 2]
      mod_offset [OF r(4), of 2]
    by (simp_all add: s)
  let ?r = "a * 262144 + b * 4096 + c * 64 + d"
  have g1: "\<not> ?r \<le> 0xFFFF"
  proof (cases "a = 0")
    case True
    with lo have "16 * 4096 \<le> b * 4096" by simp
    then show ?thesis by linarith
  next
    case False
    then have "1 \<le> a" by simp
    then have "262144 \<le> a * 262144" by simp
    then show ?thesis by linarith
  qed
  have g2: "\<not> 0x10FFFF < ?r"
  proof (cases "a = 4")
    case True
    with hi have "b * 4096 \<le> 15 * 4096" by simp
    with True r show ?thesis by simp
  next
    case False
    with a4 have "a \<le> 3" by simp
    then have "a * 262144 \<le> 3 * 262144" by simp
    moreover have "b * 4096 \<le> 63 * 4096" using r by simp
    moreover have "c * 64 \<le> 63 * 64" using r by simp
    ultimately show ?thesis using r by linarith
  qed
  have g: "\<not> ?r \<le> 0x7F" "\<not> ?r \<le> 0x7FF" "\<not> (0xD800 \<le> ?r \<and> ?r \<le> 0xDFFF)"
    using g1 by linarith+
  show ?thesis
    unfolding m EncodeRune_def using g g1 g2 digits4 [OF r(2) r(3) r(4), of a]
    by (auto simp: s)
qed

lemma Decode_ascii: "byte c < 0x80 \<Longrightarrow> DecodeRuneInString (c # cs) = (byte c, 1)"
  by (simp add: DecodeRuneInString_def)

lemma Decode_bad_lead:
  "0x80 \<le> byte c \<Longrightarrow> byte c < 0xC2 \<or> 0xF4 < byte c \<Longrightarrow>
   DecodeRuneInString (c # cs) = (RuneError, 1)"
  by (auto simp: DecodeRuneInString_def)

lemma Decode_2:
  assumes "0xC2 \<le> byte c" "byte c \<le> 0xDF"
  shows "DecodeRuneInString (c # cs) =
     (case cs of
        [] \<Rightarrow> (RuneError, 1)
      | c1 # t \<Rightarrow>
          if 0x80 \<le> byte c1 \<and> byte c1 \<le> 0xBF
          then ((byte c mod 32) * 64 + byte c1 mod 64, 2)
          else (RuneError, 1))"
  using assms by (auto simp: DecodeRuneInString_def Let_def split: list.splits)

lemma Decode_3:
  assumes "0xE0 \<le> byte c" "byte c \<le> 0xEF"
  shows "DecodeRuneInString (c # cs) =
     (case cs of
        c1 # c2 # t \<Rightarrow>
          if (if byte c = 0xE0 then 0xA0 else 0x80) \<le> byte c1
             \<and> byte c1 \<le> (if byte c = 0xED then 0x9F else 0xBF)
             \<and> 0x80 \<le> byte c2 \<and> byte c2 \<le> 0xBF
          then ((byte c mod 16) * 4096 + (byte c1 mod 64) * 64 + byte c2 mod 64, 3)
          else (RuneError, 1)
      | _ \<Rightarrow> (RuneError, 1))"
  using assms by (auto simp: DecodeRuneInString_def Let_def split: list.splits)

lemma Decode_4:
  assumes "0xF0 \<le> byte c" "byte c \<le> 0xF4"
  shows "DecodeRuneInString (c # cs) =
     (case cs of
        c1 # c2 # c3 # t \<Rightarrow>
          if (if byte c = 0xF0 then 0x90 else 0x80) \<le> byte c1
             \<and> byte c1 \<le> (if byte c = 0xF4 then 0x8F else 0xBF)
             \<and> 0x80 \<le> byte c2 \<and> byte c2 \<le> 0xBF
             \<and> 0x80 \<le> byte c3 \<and> byte c3 \<le> 0xBF
          then ((byte c mod 8) * 262144 + (byte c1 mod 64) * 4096
                  + (byte c2 mod 64) * 64 + byte c3 mod 64, 4)
          else (RuneError, 1)
      | _ \<Rightarrow> (RuneError, 1))"
  using assms by (auto simp: DecodeRuneInString_def Let_def split: list.splits)

text \<open>
  A rune that decodes well: its width, its bytes, and that they are its encoding.
\<close>

lemma Decode_valid:
  assumes "DecodeRuneInString (c # cs) = (r, w)" and "\<not> (r = RuneError \<and> w = 1)"
  shows "1 \<le> w \<and> w - 1 \<le> length cs \<and> EncodeRune r = c # take (w - 1) cs
         \<and> (\<forall>x. DecodeRuneInString (c # take (w - 1) cs @ x) = (r, w))
         \<and> (0x80 \<le> byte c \<longrightarrow> 2 \<le> w \<and> 0x80 \<le> r)"
proof -
  consider (ascii) "byte c < 0x80"
    | (bad) "0x80 \<le> byte c" "byte c < 0xC2 \<or> 0xF4 < byte c"
    | (two) "0xC2 \<le> byte c" "byte c \<le> 0xDF"
    | (three) "0xE0 \<le> byte c" "byte c \<le> 0xEF"
    | (four) "0xF0 \<le> byte c" "byte c \<le> 0xF4"
    by linarith
  then show ?thesis
  proof cases
    case ascii
    with assms(1) have "r = byte c" "w = 1" by (simp_all add: Decode_ascii)
    with ascii show ?thesis by (simp add: Decode_ascii EncodeRune_def)
  next
    case bad
    with assms show ?thesis by (simp add: Decode_bad_lead)
  next
    case two
    from assms two obtain c1 t where cs: "cs = c1 # t"
      and c1: "0x80 \<le> byte c1" "byte c1 \<le> 0xBF"
      and r: "r = (byte c mod 32) * 64 + byte c1 mod 64" and w: "w = 2"
      by (auto simp: Decode_2 split: list.splits if_splits)
    have "EncodeRune r = [c, c1]"
      unfolding r using EncodeRune_2 [OF two c1] by simp
    moreover have "0x80 \<le> r"
    proof -
      have "2 \<le> byte c mod 32"
        using two mod_offset [of "byte c - 0xC0" 32 6] by simp
      then show ?thesis unfolding r by linarith
    qed
    ultimately show ?thesis using two c1 cs r w by (simp add: Decode_2)
  next
    case three
    from assms three obtain c1 c2 t where cs: "cs = c1 # c2 # t"
      and c1: "(if byte c = 0xE0 then 0xA0 else 0x80) \<le> byte c1"
              "byte c1 \<le> (if byte c = 0xED then 0x9F else 0xBF)"
      and c2: "0x80 \<le> byte c2" "byte c2 \<le> 0xBF"
      and r: "r = (byte c mod 16) * 4096 + (byte c1 mod 64) * 64 + byte c2 mod 64" and w: "w = 3"
      by (auto simp: Decode_3 split: list.splits if_splits)
    have b1: "0x80 \<le> byte c1" "byte c1 \<le> 0xBF"
      using c1 by (auto split: if_splits)
    have lo: "byte c = 0xE0 \<Longrightarrow> 0xA0 \<le> byte c1"
      and hi: "byte c = 0xED \<Longrightarrow> byte c1 \<le> 0x9F"
      using c1 by (auto split: if_splits)
    have "EncodeRune r = [c, c1, c2]"
      unfolding r using EncodeRune_3 [OF three b1 c2 lo hi] by simp
    moreover have "0x80 \<le> r"
    proof (cases "byte c = 0xE0")
      case True
      with c1 have "0xA0 \<le> byte c1" by simp
      then have "32 \<le> byte c1 mod 64"
        using b1 mod_offset [of "byte c1 - 0x80" 64 2] by simp
      then show ?thesis unfolding r by linarith
    next
      case False
      with three have "1 \<le> byte c mod 16"
        using mod_offset [of "byte c - 0xE0" 16 14] by simp
      then show ?thesis unfolding r by linarith
    qed
    ultimately show ?thesis using three c1 c2 cs r w by (simp add: Decode_3)
  next
    case four
    from assms four obtain c1 c2 c3 t where cs: "cs = c1 # c2 # c3 # t"
      and c1: "(if byte c = 0xF0 then 0x90 else 0x80) \<le> byte c1"
              "byte c1 \<le> (if byte c = 0xF4 then 0x8F else 0xBF)"
      and c2: "0x80 \<le> byte c2" "byte c2 \<le> 0xBF"
      and c3: "0x80 \<le> byte c3" "byte c3 \<le> 0xBF"
      and r: "r = (byte c mod 8) * 262144 + (byte c1 mod 64) * 4096
                    + (byte c2 mod 64) * 64 + byte c3 mod 64" and w: "w = 4"
      by (auto simp: Decode_4 split: list.splits if_splits)
    have b1: "0x80 \<le> byte c1" "byte c1 \<le> 0xBF"
      using c1 by (auto split: if_splits)
    have lo: "byte c = 0xF0 \<Longrightarrow> 0x90 \<le> byte c1"
      and hi: "byte c = 0xF4 \<Longrightarrow> byte c1 \<le> 0x8F"
      using c1 by (auto split: if_splits)
    have "EncodeRune r = [c, c1, c2, c3]"
      unfolding r using EncodeRune_4 [OF four b1 c2 c3 lo hi] by simp
    moreover have "0x80 \<le> r"
    proof (cases "byte c = 0xF0")
      case True
      with c1 have "0x90 \<le> byte c1" by simp
      then have "16 \<le> byte c1 mod 64"
        using b1 mod_offset [of "byte c1 - 0x80" 64 2] by simp
      then show ?thesis unfolding r by linarith
    next
      case False
      with four have "1 \<le> byte c mod 8"
        using mod_offset [of "byte c - 0xF0" 8 30] by simp
      then show ?thesis unfolding r by linarith
    qed
    ultimately show ?thesis using four c1 c2 c3 cs r w by (simp add: Decode_4)
  qed
qed

lemma decomp2:
  fixes r :: nat
  obtains a b where "r = a * 64 + b" "b < 64"
proof
  show "r = (r div 64) * 64 + r mod 64" by simp
  show "r mod 64 < 64" by simp
qed

lemma decomp3:
  fixes r :: nat
  obtains a b c where "r = a * 4096 + b * 64 + c" "b < 64" "c < 64"
proof -
  obtain q c where q: "r = q * 64 + c" "c < 64" by (rule decomp2)
  obtain a b where a: "q = a * 64 + b" "b < 64" by (rule decomp2)
  have "r = a * 4096 + b * 64 + c" unfolding q a by simp
  then show ?thesis using a(2) q(2) by (rule that)
qed

lemma decomp4:
  fixes r :: nat
  obtains a b c d where "r = a * 262144 + b * 4096 + c * 64 + d" "b < 64" "c < 64" "d < 64"
proof -
  obtain q d where q: "r = q * 64 + d" "d < 64" by (rule decomp2)
  obtain a b c where a: "q = a * 4096 + b * 64 + c" "b < 64" "c < 64" by (rule decomp3)
  have "r = a * 262144 + b * 4096 + c * 64 + d" unfolding q a by simp
  then show ?thesis using a(2,3) q(2) by (rule that)
qed

text \<open>The encoding of any rune decodes, to the rune or (for a surrogate or a value
  out of range) to \<open>U+FFFD\<close>, with the width of the encoding.\<close>

lemma Decode_Encode:
  "DecodeRuneInString (EncodeRune r @ t) =
     (if 0x10FFFF < r \<or> (0xD800 \<le> r \<and> r \<le> 0xDFFF) then RuneError else r,
      length (EncodeRune r))
   \<and> (r \<le> 0x7F \<longleftrightarrow> length (EncodeRune r) = 1) \<and> EncodeRune r \<noteq> []"
proof -
  consider (one) "r \<le> 0x7F"
    | (two) "0x7F < r" "r \<le> 0x7FF"
    | (bad) "0x7FF < r" "0x10FFFF < r \<or> (0xD800 \<le> r \<and> r \<le> 0xDFFF)"
    | (three) "0x7FF < r" "r \<le> 0xFFFF" "\<not> (0xD800 \<le> r \<and> r \<le> 0xDFFF)"
    | (four) "0xFFFF < r" "r \<le> 0x10FFFF"
    by linarith
  then show ?thesis
  proof cases
    case one
    then have "byte (mkbyte r) = r" by (simp add: byte_mkbyte)
    with one show ?thesis by (simp add: EncodeRune_def Decode_ascii)
  next
    case two
    obtain a b where r: "r = a * 64 + b" and b: "b < 64" by (rule decomp2)
    from two r b have a: "2 \<le> a" "a < 32" by linarith+
    have e: "EncodeRune r = [mkbyte (0xC0 + a), mkbyte (0x80 + b)]"
      using two digits2 [OF b, of a] by (simp add: EncodeRune_def r)
    have by0: "byte (mkbyte (0xC0 + a)) = 0xC0 + a" using a by (simp add: byte_mkbyte)
    have by1: "byte (mkbyte (0x80 + b)) = 0x80 + b" using b by (simp add: byte_mkbyte)
    have m: "(0xC0 + a) mod 32 = a" "(0x80 + b) mod 64 = b"
      using mod_offset [OF a(2), of 6] mod_offset [OF b, of 2] by simp_all
    have "DecodeRuneInString (EncodeRune r @ t) = (r, 2)"
      unfolding e using a b by (simp add: Decode_2 by0 by1 m r)
    with two e show ?thesis by auto
  next
    case bad
    then have e: "EncodeRune r = [mkbyte 0xEF, mkbyte 0xBF, mkbyte 0xBD]"
      by (simp add: EncodeRune_def)
    have "DecodeRuneInString (EncodeRune r @ t) = (RuneError, 3)"
      unfolding e by (simp add: Decode_3 byte_mkbyte RuneError_def)
    with bad e show ?thesis by auto
  next
    case three
    obtain a b c where r: "r = a * 4096 + b * 64 + c" and b: "b < 64" and c: "c < 64"
      by (rule decomp3)
    from three r b c have a: "a < 16" by linarith
    have lo: "32 \<le> b" if "a = 0" using that three r c by linarith
    have hi: "b \<le> 31" if "a = 13"
    proof -
      have "r \<le> 0xDFFF" using that r b c by linarith
      with three(3) have "r < 0xD800" by linarith
      with that r show ?thesis by linarith
    qed
    have e: "EncodeRune r = [mkbyte (0xE0 + a), mkbyte (0x80 + b), mkbyte (0x80 + c)]"
      using three digits3 [OF b c, of a] by (auto simp: EncodeRune_def r)
    have by0: "byte (mkbyte (0xE0 + a)) = 0xE0 + a" using a by (simp add: byte_mkbyte)
    have by1: "byte (mkbyte (0x80 + b)) = 0x80 + b" using b by (simp add: byte_mkbyte)
    have by2: "byte (mkbyte (0x80 + c)) = 0x80 + c" using c by (simp add: byte_mkbyte)
    have m: "(0xE0 + a) mod 16 = a" "(0x80 + b) mod 64 = b" "(0x80 + c) mod 64 = c"
      using mod_offset [OF a, of 14] mod_offset [OF b, of 2] mod_offset [OF c, of 2]
      by simp_all
    have "DecodeRuneInString (EncodeRune r @ t) = (r, 3)"
      unfolding e using a b c lo hi by (simp add: Decode_3 by0 by1 by2 m r)
    with three e show ?thesis by auto
  next
    case four
    obtain a b c d where r: "r = a * 262144 + b * 4096 + c * 64 + d"
      and b: "b < 64" and c: "c < 64" and d: "d < 64"
      by (rule decomp4)
    from four r b c d have a: "a \<le> 4" by linarith
    have lo: "16 \<le> b" if "a = 0" using that four r c d by linarith
    have hi: "b \<le> 15" if "a = 4" using that four r c d by linarith
    have a8: "a < 8" using a by simp
    have e: "EncodeRune r = [mkbyte (0xF0 + a), mkbyte (0x80 + b), mkbyte (0x80 + c),
                              mkbyte (0x80 + d)]"
      using four digits4 [OF b c d, of a] by (auto simp: EncodeRune_def r)
    have by0: "byte (mkbyte (0xF0 + a)) = 0xF0 + a" using a by (simp add: byte_mkbyte)
    have by1: "byte (mkbyte (0x80 + b)) = 0x80 + b" using b by (simp add: byte_mkbyte)
    have by2: "byte (mkbyte (0x80 + c)) = 0x80 + c" using c by (simp add: byte_mkbyte)
    have by3: "byte (mkbyte (0x80 + d)) = 0x80 + d" using d by (simp add: byte_mkbyte)
    have m: "(0xF0 + a) mod 8 = a" "(0x80 + b) mod 64 = b" "(0x80 + c) mod 64 = c"
      "(0x80 + d) mod 64 = d"
      using mod_offset [OF a8, of 30] mod_offset [OF b, of 2] mod_offset [OF c, of 2]
        mod_offset [OF d, of 2]
      by simp_all
    have "DecodeRuneInString (EncodeRune r @ t) = (r, 4)"
      unfolding e using a b c d lo hi by (simp add: Decode_4 by0 by1 by2 by3 m r)
    with four e show ?thesis by auto
  qed
qed

subsection \<open>String literals\<close>

lemma hexval_hex: "n < 16 \<Longrightarrow> hexval (hex n) = Some n"
proof -
  have "\<forall>n < Suc (Suc (Suc (Suc (Suc (Suc (Suc (Suc (Suc (Suc (Suc (Suc (Suc (Suc (Suc (Suc (0)))))))))))))))). hexval (hex n) = Some n"
    by (simp add: All_less_Suc hex_def hexval_def byte_def)
  moreover have "(16::nat) = Suc (Suc (Suc (Suc (Suc (Suc (Suc (Suc (Suc (Suc (Suc (Suc (Suc (Suc (Suc (Suc (0))))))))))))))))" by simp
  ultimately show "n < 16 \<Longrightarrow> hexval (hex n) = Some n" by simp
qed

lemma getu4_low:
  assumes "b < 256"
  shows "getu4 (CHR ''u'' # CHR ''0'' # CHR ''0'' # hex (b div 16) # hex (b mod 16) # X) = Some b"
proof -
  have "b div 16 < 16" using assms by simp
  then have h1: "hexval (hex (b div 16)) = Some (b div 16)" by (rule hexval_hex)
  have h2: "hexval (hex (b mod 16)) = Some (b mod 16)" by (rule hexval_hex) simp
  have h0: "hexval (CHR ''0'') = Some 0" by (simp add: hexval_def byte_def)
  show ?thesis by (simp add: getu4_def h0 h1 h2)
qed

lemma byte_eq_iff: "byte c = byte d \<longleftrightarrow> c = d"
  by (simp add: byte_def)

lemma parse_string_safe:
  assumes "htmlSafe (byte c)"
  shows "parse_string (c # X) = consStr [c] (parse_string X)"
proof -
  have "byte dquote = 0x22" "byte bslash = 0x5C" by (simp_all add: byte_def dquote_def bslash_def)
  with assms have "c \<noteq> dquote" "c \<noteq> bslash" by (auto simp: htmlSafe_def)
  with assms show ?thesis by (simp add: htmlSafe_def)
qed

lemma parse_string_unicode_escape:
  assumes "getu4 (CHR ''u'' # X) = Some rr" "\<not> IsSurrogate rr"
  shows "parse_string (bslash # CHR ''u'' # X) = consStr (EncodeRune rr) (parse_string (drop 4 X))"
  using assms by (simp add: bslash_def dquote_def)

lemma consStr_Some [simp]: "consStr p (Some (t, r)) = Some (p @ t, r)"
  by (simp add: consStr_def)

lemma consStr_None [simp]: "consStr p None = None"
  by (simp add: consStr_def)

lemma char_of_byte: "byte c = n \<Longrightarrow> c = mkbyte n"
  by (auto simp: byte_def mkbyte_def)

lemma parse_string_escape:
  assumes "byte c < 0x80" "\<not> htmlSafe (byte c)"
  shows "parse_string (escapeByte c @ X) = consStr [c] (parse_string X)"
proof -
  consider (q) "c = bslash \<or> c = dquote"
    | (b) "byte c = 0x08" | (f) "byte c = 0x0C" | (n) "byte c = 0x0A"
    | (r) "byte c = 0x0D" | (t) "byte c = 0x09"
    | (u) "c \<noteq> bslash" "c \<noteq> dquote" "byte c \<noteq> 0x08" "byte c \<noteq> 0x0C" "byte c \<noteq> 0x0A"
          "byte c \<noteq> 0x0D" "byte c \<noteq> 0x09"
    by blast
  then show ?thesis
  proof cases
    case q
    then show ?thesis by (auto simp: escapeByte_def bslash_def dquote_def)
  next
    case b
    then have "byte c = byte (CHR 0x08)" by (simp add: byte_def)
    then have "c = CHR 0x08" by (simp only: byte_eq_iff)
    then show ?thesis by (simp add: escapeByte_def bslash_def dquote_def byte_def)
  next
    case f
    then have "byte c = byte (CHR 0x0C)" by (simp add: byte_def)
    then have "c = CHR 0x0C" by (simp only: byte_eq_iff)
    then show ?thesis by (simp add: escapeByte_def bslash_def dquote_def byte_def)
  next
    case n
    then have "byte c = byte (CHR 0x0A)" by (simp add: byte_def)
    then have "c = CHR 0x0A" by (simp only: byte_eq_iff)
    then show ?thesis by (simp add: escapeByte_def bslash_def dquote_def byte_def)
  next
    case r
    then have "byte c = byte (CHR 0x0D)" by (simp add: byte_def)
    then have "c = CHR 0x0D" by (simp only: byte_eq_iff)
    then show ?thesis by (simp add: escapeByte_def bslash_def dquote_def byte_def)
  next
    case t
    then have "byte c = byte (CHR 0x09)" by (simp add: byte_def)
    then have "c = CHR 0x09" by (simp only: byte_eq_iff)
    then show ?thesis by (simp add: escapeByte_def bslash_def dquote_def byte_def)
  next
    case u
    then have e: "escapeByte c =
        [bslash, CHR ''u'', CHR ''0'', CHR ''0'', hex (byte c div 16), hex (byte c mod 16)]"
      by (simp add: escapeByte_def Let_def)
    have g: "getu4 (CHR ''u'' # CHR ''0'' # CHR ''0'' # hex (byte c div 16) # hex (byte c mod 16) # X)
               = Some (byte c)"
      by (rule getu4_low) simp
    have s: "\<not> IsSurrogate (byte c)" using assms(1) by (simp add: IsSurrogate_def)
    have "EncodeRune (byte c) = [c]" using assms(1) by (simp add: EncodeRune_def)
    with parse_string_unicode_escape [OF g s] show ?thesis by (simp add: e)
  qed
qed

lemma coerceUTF8_ascii: "byte c < 0x80 \<Longrightarrow> coerceUTF8 (c # cs) = c # coerceUTF8 cs"
  by (simp add: Decode_ascii RuneError_def)

lemma parse_string_raw:
  assumes "DecodeRuneInString (c # cs) = (r, w)" "\<not> (r = RuneError \<and> w = 1)" "0x80 \<le> byte c"
  shows "parse_string (c # take (w - 1) cs @ X) = consStr (c # take (w - 1) cs) (parse_string X)"
proof -
  from Decode_valid [OF assms(1,2)] have
    len: "w - 1 \<le> length cs" and enc: "EncodeRune r = c # take (w - 1) cs"
    and dec: "DecodeRuneInString (c # take (w - 1) cs @ X) = (r, w)"
    by blast+
  have "byte dquote = 0x22" "byte bslash = 0x5C" by (simp_all add: byte_def dquote_def bslash_def)
  with assms(3) have ne: "c \<noteq> dquote" "c \<noteq> bslash" by auto
  have d: "drop (w - 1) (take (w - 1) cs @ X) = X" using len by simp
  show ?thesis
    using ne assms(3) dec enc d by simp
qed

lemma getu4_fffd:
  "getu4 (CHR ''u'' # CHR ''f'' # CHR ''f'' # CHR ''f'' # CHR ''d'' # X) = Some RuneError"
  by (simp add: getu4_def hexval_def byte_def RuneError_def)

lemma getu4_202x:
  assumes "r = 0x2028 \<or> r = 0x2029"
  shows "getu4 (CHR ''u'' # CHR ''2'' # CHR ''0'' # CHR ''2'' # hex (r mod 16) # X) = Some r"
  using assms by (auto simp: getu4_def hexval_def byte_def hex_def)

lemma coerceUTF8_invalid:
  "DecodeRuneInString (c # cs) = (RuneError, 1) \<Longrightarrow>
   coerceUTF8 (c # cs) = EncodeRune RuneError @ coerceUTF8 cs"
  by simp

lemma coerceUTF8_valid:
  "DecodeRuneInString (c # cs) = (r, w) \<Longrightarrow> \<not> (r = RuneError \<and> w = 1) \<Longrightarrow>
   coerceUTF8 (c # cs) = c # take (w - 1) cs @ coerceUTF8 (drop (w - 1) cs)"
  by auto

lemma appendString_body_ascii:
  "byte c < 0x80 \<Longrightarrow>
   appendString_body (c # cs) =
     (if htmlSafe (byte c) then [c] else escapeByte c) @ appendString_body cs"
  by simp

lemma appendString_body_invalid:
  "\<not> byte c < 0x80 \<Longrightarrow> DecodeRuneInString (c # cs) = (RuneError, 1) \<Longrightarrow>
   appendString_body (c # cs) =
     [bslash, CHR ''u'', CHR ''f'', CHR ''f'', CHR ''f'', CHR ''d''] @ appendString_body cs"
  by simp

lemma appendString_body_valid:
  "\<not> byte c < 0x80 \<Longrightarrow> DecodeRuneInString (c # cs) = (r, w) \<Longrightarrow>
   \<not> (r = RuneError \<and> w = 1) \<Longrightarrow>
   appendString_body (c # cs) =
     (if r = 0x2028 \<or> r = 0x2029
      then [bslash, CHR ''u'', CHR ''2'', CHR ''0'', CHR ''2'', hex (r mod 16)]
             @ appendString_body (drop (w - 1) cs)
      else c # take (w - 1) cs @ appendString_body (drop (w - 1) cs))"
  by auto

text \<open>
  A string written by \<open>appendString\<close> is read back as its coercion to valid UTF-8.
\<close>

lemma parse_string_appendString:
  "parse_string (appendString_body s @ dquote # rest) = Some (coerceUTF8 s, rest)"
proof (induction "length s" arbitrary: s rule: less_induct)
  case less
  show ?case
  proof (cases s)
    case Nil
    then show ?thesis by simp
  next
    case (Cons c cs)
    have ih: "parse_string (appendString_body t @ dquote # rest) = Some (coerceUTF8 t, rest)"
      if "length t \<le> length cs" for t
      using less [of t] that Cons by simp
    show ?thesis
    proof (cases "byte c < 0x80")
      case True
      show ?thesis
      proof (cases "htmlSafe (byte c)")
        case safe: True
        show ?thesis
          unfolding Cons appendString_body_ascii [OF True] coerceUTF8_ascii [OF True]
          using safe parse_string_safe [OF safe, of "appendString_body cs @ dquote # rest"]
          by (simp add: ih del: parse_string.simps)
      next
        case unsafe: False
        show ?thesis
          unfolding Cons appendString_body_ascii [OF True] coerceUTF8_ascii [OF True]
          using unsafe
            parse_string_escape [OF True unsafe, of "appendString_body cs @ dquote # rest"]
          by (simp add: ih del: parse_string.simps)
      qed
    next
      case False
      obtain r w where d: "DecodeRuneInString (c # cs) = (r, w)"
        by (cases "DecodeRuneInString (c # cs)") auto
      show ?thesis
      proof (cases "r = RuneError \<and> w = 1")
        case True
        with d have d': "DecodeRuneInString (c # cs) = (RuneError, 1)" by simp
        have s: "\<not> IsSurrogate RuneError" by (simp add: IsSurrogate_def RuneError_def)
        show ?thesis
          unfolding Cons appendString_body_invalid [OF False d'] coerceUTF8_invalid [OF d']
          using parse_string_unicode_escape [OF getu4_fffd s,
                  of "appendString_body cs @ dquote # rest"]
          by (simp add: ih del: parse_string.simps)
      next
        case valid: False
        from False have hi: "0x80 \<le> byte c" by simp
        from Decode_valid [OF d valid] have
          enc: "EncodeRune r = c # take (w - 1) cs" by blast
        have dl: "length (drop (w - 1) cs) \<le> length cs" by simp
        show ?thesis
        proof (cases "r = 0x2028 \<or> r = 0x2029")
          case True
          then have s: "\<not> IsSurrogate r" by (auto simp: IsSurrogate_def)
          show ?thesis
            unfolding Cons appendString_body_valid [OF False d valid] coerceUTF8_valid [OF d valid]
            using True enc parse_string_unicode_escape [OF getu4_202x [OF True] s,
                  of "appendString_body (drop (w - 1) cs) @ dquote # rest"]
            by (simp add: ih [OF dl] del: parse_string.simps One_nat_def)
        next
          case other: False
          show ?thesis
            unfolding Cons appendString_body_valid [OF False d valid] coerceUTF8_valid [OF d valid]
            using other parse_string_raw [OF d valid hi,
                  of "appendString_body (drop (w - 1) cs) @ dquote # rest"]
            by (simp add: ih [OF dl] del: parse_string.simps One_nat_def)
        qed
      qed
    qed
  qed
qed

lemma coerceUTF8_Encode: "coerceUTF8 (EncodeRune x @ t) = EncodeRune x @ coerceUTF8 t"
proof -
  from Decode_Encode [of x t] obtain r' where
    d: "DecodeRuneInString (EncodeRune x @ t) = (r', length (EncodeRune x))"
    and r': "r' = (if 0x10FFFF < x \<or> (0xD800 \<le> x \<and> x \<le> 0xDFFF) then RuneError else x)"
    and one: "x \<le> 0x7F \<longleftrightarrow> length (EncodeRune x) = 1"
    and ne: "EncodeRune x \<noteq> []"
    by blast
  from ne obtain e es where e: "EncodeRune x = e # es" by (cases "EncodeRune x") auto
  have v: "\<not> (r' = RuneError \<and> length (EncodeRune x) = 1)"
    using one r' by (auto simp: RuneError_def)
  from d have d': "DecodeRuneInString (e # (es @ t)) = (r', length (EncodeRune x))"
    by (simp add: e)
  show ?thesis
    using coerceUTF8_valid [OF d' v] by (simp add: e)
qed

lemma coerceUTF8_ascii_append:
  "byte c < 0x80 \<Longrightarrow> coerceUTF8 ([c] @ t) = [c] @ coerceUTF8 t"
  by (simp add: coerceUTF8_ascii del: coerceUTF8.simps)

lemma consStr_SomeD:
  "consStr p x = Some (t, r) \<Longrightarrow> \<exists>t'. x = Some (t', r) \<and> t = p @ t'"
  by (auto simp: consStr_def split: option.splits)

lemma ValidString_coerceUTF8: "ValidString s \<Longrightarrow> coerceUTF8 s = s"
proof (induction "length s" arbitrary: s rule: less_induct)
  case less
  show ?case
  proof (cases s)
    case Nil
    then show ?thesis by simp
  next
    case (Cons c cs)
    obtain r w where d: "DecodeRuneInString (c # cs) = (r, w)"
      by (cases "DecodeRuneInString (c # cs)") auto
    from less.prems Cons d have v: "\<not> (r = RuneError \<and> w = 1)"
      and rest: "ValidString (drop (w - 1) cs)"
      by (auto split: if_splits)
    have "length (drop (w - 1) cs) < length s" using Cons by simp
    from less.hyps [OF this rest] have "coerceUTF8 (drop (w - 1) cs) = drop (w - 1) cs" .
    with coerceUTF8_valid [OF d v] show ?thesis by (simp add: Cons)
  qed
qed

lemma parse_string_unicode_shape:
  assumes "parse_string (bslash # CHR ''u'' # X) = Some (t, r)"
  shows "\<exists>x n. consStr (EncodeRune x) (parse_string (drop n X)) = Some (t, r)"
proof -
  have ne: "bslash \<noteq> dquote" "CHR ''u'' \<noteq> dquote" "CHR ''u'' \<noteq> bslash"
    by (simp_all add: bslash_def dquote_def)
  from assms ne show ?thesis
    by (simp split: option.splits if_splits del: parse_string.simps
          add: parse_string.simps(2) [of bslash]) blast+
qed

text \<open>Every string read from a literal is valid UTF-8: coercing it changes nothing.\<close>

lemma parse_string_coerced:
  "parse_string s = Some (t, r) \<Longrightarrow> coerceUTF8 t = t"
proof (induction "length s" arbitrary: s t rule: less_induct)
  case less
  show ?case
  proof (cases s)
    case Nil
    with less.prems show ?thesis by simp
  next
    case (Cons c cs)
    have ih: "coerceUTF8 t' = t'" if "parse_string s' = Some (t', r)" "length s' \<le> length cs"
      for s' t'
      using less.hyps [of s' t'] that Cons by simp
    have step_a: "coerceUTF8 t = t"
      if "consStr [e] (parse_string s') = Some (t, r)" "byte e < 0x80" "length s' \<le> length cs"
      for e s'
    proof -
      from consStr_SomeD [OF that(1)] obtain t' where
        t': "parse_string s' = Some (t', r)" "t = [e] @ t'" by blast
      from ih [OF t'(1) that(3)] coerceUTF8_ascii_append [OF that(2), of t'] t'(2)
      show ?thesis by simp
    qed
    have step_e: "coerceUTF8 t = t"
      if "consStr (EncodeRune x) (parse_string s') = Some (t, r)" "length s' \<le> length cs"
      for x s'
    proof -
      from consStr_SomeD [OF that(1)] obtain t' where
        t': "parse_string s' = Some (t', r)" "t = EncodeRune x @ t'" by blast
      from ih [OF t'(1) that(2)] coerceUTF8_Encode [of x t'] t'(2)
      show ?thesis by simp
    qed
    have b: "byte dquote < 0x80" "byte bslash < 0x80" "byte (CHR ''/'') < 0x80"
      "byte (CHR 0x08) < 0x80" "byte (CHR 0x0C) < 0x80" "byte (CHR 0x0A) < 0x80"
      "byte (CHR 0x0D) < 0x80" "byte (CHR 0x09) < 0x80"
      by (simp_all add: byte_def dquote_def bslash_def)
    consider (quote) "c = dquote"
      | (esc) "c \<noteq> dquote" "c = bslash"
      | (raw) "c \<noteq> dquote" "c \<noteq> bslash"
      by blast
    then show ?thesis
    proof cases
      case quote
      with less.prems Cons show ?thesis by simp
    next
      case esc
      show ?thesis
      proof (cases cs)
        case Nil
        with less.prems Cons esc show ?thesis by simp
      next
        case inner: (Cons e cs')
        show ?thesis
        proof (cases "e = CHR ''u''")
          case True
          from less.prems have "parse_string (bslash # CHR ''u'' # cs') = Some (t, r)"
            by (simp only: Cons esc inner True)
          from parse_string_unicode_shape [OF this] obtain x n where
            "consStr (EncodeRune x) (parse_string (drop n cs')) = Some (t, r)" by blast
          moreover have "length (drop n cs') \<le> length cs" by (simp add: inner)
          ultimately show ?thesis by (rule step_e)
        next
          case False
          have l: "length cs' \<le> length cs" by (simp add: inner)
          from less.prems esc False show ?thesis
            unfolding Cons inner parse_string.simps
            by (auto split: if_splits simp: b simp del: parse_string.simps
                  intro: step_a [OF _ _ l])
        qed
      qed
    next
      case raw
      have l: "length cs \<le> length cs" by simp
      have l': "length (drop n cs) \<le> length cs" for n by simp
      from less.prems raw show ?thesis
        unfolding Cons parse_string.simps
        by (auto split: if_splits prod.splits simp del: parse_string.simps
              intro: step_a [OF _ _ l] step_e [OF _ l'])
    qed
  qed
qed

subsection \<open>Documents\<close>

lemma skip_ws_head: "\<not> isSpace c \<Longrightarrow> skip_ws (c # cs) = c # cs"
  by (simp add: skip_ws_def)

lemma render_head:
  "textual j \<Longrightarrow>
   \<exists>c cs. render j = c # cs \<and> \<not> isSpace c \<and> c \<noteq> CHR '']'' \<and> c \<noteq> CHR ''}''"
  by (cases j) (auto simp: isSpace_def appendString_def dquote_def)

lemma render_elems_head:
  "vs \<noteq> [] \<Longrightarrow> list_all textual vs \<Longrightarrow>
   \<exists>c cs. render_elems vs = c # cs \<and> \<not> isSpace c \<and> c \<noteq> CHR '']''"
proof (cases vs)
  case Nil
  then show "vs \<noteq> [] \<Longrightarrow> ?thesis" by simp
next
  case (Cons v vs')
  assume "list_all textual vs"
  with Cons have "textual v" by simp
  from render_head [OF this] obtain c cs where
    "render v = c # cs" "\<not> isSpace c" "c \<noteq> CHR '']''" by blast
  with Cons show ?thesis by (cases vs') auto
qed

lemma render_members_head:
  "kvs \<noteq> [] \<Longrightarrow> \<exists>cs. render_members kvs = dquote # cs"
proof (cases kvs)
  case Nil
  then show "kvs \<noteq> [] \<Longrightarrow> ?thesis" by simp
next
  case (Cons kv kvs')
  obtain k v where "kv = (k, v)" by (cases kv)
  with Cons show ?thesis by (cases kvs') (auto simp: appendString_def)
qed

lemma dquote_facts:
  "\<not> isSpace dquote" "dquote \<noteq> CHR ''['' " "dquote \<noteq> CHR ''{''" "dquote \<noteq> CHR ''}''"
  "dquote \<noteq> CHR '']''" "dquote \<noteq> CHR '',''" "dquote \<noteq> CHR '':''"
  by (simp_all add: dquote_def isSpace_def)

lemma parse_value_string:
  "parse_value (Suc n) (dquote # X) =
     (case parse_string X of None \<Rightarrow> None | Some (t, r) \<Rightarrow> Some (JStr t, r))"
  by (simp add: skip_ws_head dquote_facts)

lemma parse_value_array:
  "parse_value (Suc n) (CHR ''['' # X) =
     (case skip_ws X of
        [] \<Rightarrow> None
      | d # ds \<Rightarrow>
          if d = CHR '']'' then Some (JArr [], ds)
          else (case parse_array n X of None \<Rightarrow> None | Some (vs, r) \<Rightarrow> Some (JArr vs, r)))"
  by (simp add: skip_ws_head isSpace_def dquote_def)

lemma parse_value_object:
  "parse_value (Suc n) (CHR ''{'' # X) =
     (case skip_ws X of
        [] \<Rightarrow> None
      | d # ds \<Rightarrow>
          if d = CHR ''}'' then Some (JObj [], ds)
          else (case parse_object n X of None \<Rightarrow> None | Some (kvs, r) \<Rightarrow> Some (JObj kvs, r)))"
  by (simp add: skip_ws_head isSpace_def dquote_def)

lemma parse_value_literals:
  "parse_value (Suc n) (''null'' @ X) = Some (JNull, X)"
  "parse_value (Suc n) (''true'' @ X) = Some (JBool True, X)"
  "parse_value (Suc n) (''false'' @ X) = Some (JBool False, X)"
  by (simp_all add: skip_ws_head isSpace_def dquote_def)

lemma parse_array_step:
  assumes "parse_value n s = Some (v, d # ds)" "\<not> isSpace d"
  shows "parse_array (Suc n) s =
     (if d = CHR '','' then
        (case parse_array n ds of None \<Rightarrow> None | Some (vs, r') \<Rightarrow> Some (v # vs, r'))
      else if d = CHR '']'' then Some ([v], ds) else None)"
  using assms by (simp add: skip_ws_head)

lemma parse_object_step:
  assumes "parse_string qs = Some (k, CHR '':'' # r1)"
    and "parse_value n r1 = Some (v, d # ds)" "\<not> isSpace d"
  shows "parse_object (Suc n) (dquote # qs) =
     (if d = CHR '','' then
        (case parse_object n ds of None \<Rightarrow> None | Some (kvs, r') \<Rightarrow> Some ((k, v) # kvs, r'))
      else if d = CHR ''}'' then Some ([(k, v)], ds) else None)"
proof -
  have s1: "skip_ws (dquote # qs) = dquote # qs"
    by (rule skip_ws_head) (rule dquote_facts)
  have s2: "skip_ws (CHR '':'' # r1) = CHR '':'' # r1"
    by (rule skip_ws_head) (simp add: isSpace_def)
  have s3: "skip_ws (d # ds) = d # ds"
    using assms(3) by (rule skip_ws_head)
  show ?thesis
    by (simp add: s1 s2 s3 assms(1,2))
qed

lemma parse_render_all:
  "(textual j \<longrightarrow> (\<forall>n rest. length (render j) \<le> n \<longrightarrow>
       parse_value n (render j @ rest) = Some (coerce_json j, rest)))"
  "(vs \<noteq> [] \<longrightarrow> list_all textual vs \<longrightarrow> (\<forall>n rest. Suc (length (render_elems vs)) \<le> n \<longrightarrow>
       parse_array n (render_elems vs @ CHR '']'' # rest) = Some (map coerce_json vs, rest)))"
  "(kvs \<noteq> [] \<longrightarrow> list_all (\<lambda>(k, v). textual v) kvs \<longrightarrow>
     (\<forall>n rest. Suc (length (render_members kvs)) \<le> n \<longrightarrow>
       parse_object n (render_members kvs @ CHR ''}'' # rest)
         = Some (map (\<lambda>(k, v). (coerceUTF8 k, coerce_json v)) kvs, rest)))"
proof (induction j and vs and kvs rule: render_render_elems_render_members.induct)
  case 1
  show ?case
  proof (intro impI allI)
    fix n rest assume "length (render JNull) \<le> n"
    then obtain m where "n = Suc m" by (cases n) auto
    then show "parse_value n (render JNull @ rest) = Some (coerce_json JNull, rest)"
      using parse_value_literals(1) [of m rest] by simp
  qed
next
  case (2 b)
  show ?case
  proof (intro impI allI)
    fix n rest assume "length (render (JBool b)) \<le> n"
    then obtain m where "n = Suc m" by (cases n) (auto split: if_splits)
    then show "parse_value n (render (JBool b) @ rest) = Some (coerce_json (JBool b), rest)"
      using parse_value_literals(2,3) [of m rest] by simp
  qed
next
  case (3 t)
  show ?case by simp
next
  case (4 s)
  show ?case
  proof (intro impI allI)
    fix n rest assume "length (render (JStr s)) \<le> n"
    then obtain m where "n = Suc m" by (cases n) (auto simp: appendString_def)
    then show "parse_value n (render (JStr s) @ rest) = Some (coerce_json (JStr s), rest)"
      using parse_value_string [of m "appendString_body s @ dquote # rest"]
      by (simp add: appendString_def parse_string_appendString)
  qed
next
  case (5 vs)
  show ?case
  proof (intro impI allI)
    fix n rest assume t: "textual (JArr vs)" and len: "length (render (JArr vs)) \<le> n"
    from len obtain m where m: "n = Suc m" by (cases n) auto
    show "parse_value n (render (JArr vs) @ rest) = Some (coerce_json (JArr vs), rest)"
    proof (cases "vs = []")
      case True
      have "skip_ws (CHR '']'' # rest) = CHR '']'' # rest"
        by (rule skip_ws_head) (simp add: isSpace_def)
      with True m show ?thesis by (simp add: parse_value_array del: parse_value.simps)
    next
      case False
      from t have all: "list_all textual vs" by simp
      from render_elems_head [OF False all] obtain c cs where
        h: "render_elems vs = c # cs" "\<not> isSpace c" "c \<noteq> CHR '']''" by blast
      have sk: "skip_ws (render_elems vs @ CHR '']'' # rest) = c # cs @ CHR '']'' # rest"
        using skip_ws_head [OF h(2)] h(1) by simp
      from len m have "Suc (length (render_elems vs)) \<le> m" by simp
      with 5 False all have
        "parse_array m (render_elems vs @ CHR '']'' # rest) = Some (map coerce_json vs, rest)"
        by blast
      with sk h(3) m show ?thesis
        by (simp add: parse_value_array del: parse_value.simps)
    qed
  qed
next
  case (6 kvs)
  show ?case
  proof (intro impI allI)
    fix n rest assume t: "textual (JObj kvs)" and len: "length (render (JObj kvs)) \<le> n"
    from len obtain m where m: "n = Suc m" by (cases n) auto
    show "parse_value n (render (JObj kvs) @ rest) = Some (coerce_json (JObj kvs), rest)"
    proof (cases "kvs = []")
      case True
      have "skip_ws (CHR ''}'' # rest) = CHR ''}'' # rest"
        by (rule skip_ws_head) (simp add: isSpace_def)
      with True m show ?thesis by (simp add: parse_value_object del: parse_value.simps)
    next
      case False
      from t have all: "list_all (\<lambda>(k, v). textual v) kvs" by simp
      from render_members_head [OF False] obtain cs where
        h: "render_members kvs = dquote # cs" by blast
      have sk: "skip_ws (render_members kvs @ CHR ''}'' # rest) = dquote # cs @ CHR ''}'' # rest"
        using skip_ws_head [OF dquote_facts(1)] h by simp
      from len m have "Suc (length (render_members kvs)) \<le> m" by simp
      with 6 False all have
        "parse_object m (render_members kvs @ CHR ''}'' # rest)
           = Some (map (\<lambda>(k, v). (coerceUTF8 k, coerce_json v)) kvs, rest)"
        by blast
      with sk m show ?thesis
        by (simp add: parse_value_object dquote_facts del: parse_value.simps)
    qed
  qed
next
  case 7
  show ?case by simp
next
  case (8 v)
  show ?case
  proof (intro impI allI)
    fix n rest assume t: "list_all textual [v]" and len: "Suc (length (render_elems [v])) \<le> n"
    from len obtain m where m: "n = Suc m" by (cases n) auto
    from t len m 8 have
      "parse_value m (render v @ CHR '']'' # rest) = Some (coerce_json v, CHR '']'' # rest)"
      by simp
    from parse_array_step [OF this] m
    show "parse_array n (render_elems [v] @ CHR '']'' # rest) = Some (map coerce_json [v], rest)"
      by (simp add: isSpace_def)
  qed
next
  case (9 v v' vs)
  show ?case
  proof (intro impI allI)
    fix n rest assume t: "list_all textual (v # v' # vs)"
      and len: "Suc (length (render_elems (v # v' # vs))) \<le> n"
    from len obtain m where m: "n = Suc m" by (cases n) auto
    let ?X = "render_elems (v' # vs) @ CHR '']'' # rest"
    from t len m 9(1) have
      "parse_value m (render v @ CHR '','' # ?X) = Some (coerce_json v, CHR '','' # ?X)"
      by simp
    from parse_array_step [OF this] have
      a: "parse_array (Suc m) (render v @ CHR '','' # ?X) =
            (case parse_array m ?X of None \<Rightarrow> None
             | Some (vs, r') \<Rightarrow> Some (coerce_json v # vs, r'))"
      by (simp add: isSpace_def)
    from t len m 9(2) have
      "parse_array m ?X = Some (map coerce_json (v' # vs), rest)"
      by simp
    with a m
    show "parse_array n (render_elems (v # v' # vs) @ CHR '']'' # rest)
            = Some (map coerce_json (v # v' # vs), rest)"
      by simp
  qed
next
  case 10
  show ?case by simp
next
  case (11 k v)
  show ?case
  proof (intro impI allI)
    fix n rest assume t: "list_all (\<lambda>(k, v). textual v) [(k, v)]"
      and len: "Suc (length (render_members [(k, v)])) \<le> n"
    from len obtain m where m: "n = Suc m" by (cases n) auto
    let ?Y = "CHR '':'' # render v @ CHR ''}'' # rest"
    have ps: "parse_string (appendString_body k @ dquote # ?Y) = Some (coerceUTF8 k, ?Y)"
      by (rule parse_string_appendString)
    from t len m 11 have
      pv: "parse_value m (render v @ CHR ''}'' # rest) = Some (coerce_json v, CHR ''}'' # rest)"
      by simp
    from parse_object_step [OF ps pv] m
    show "parse_object n (render_members [(k, v)] @ CHR ''}'' # rest)
            = Some (map (\<lambda>(k, v). (coerceUTF8 k, coerce_json v)) [(k, v)], rest)"
      by (simp add: isSpace_def appendString_def)
  qed
next
  case (12 k v kv kvs)
  show ?case
  proof (intro impI allI)
    fix n rest assume t: "list_all (\<lambda>(k, v). textual v) ((k, v) # kv # kvs)"
      and len: "Suc (length (render_members ((k, v) # kv # kvs))) \<le> n"
    from len obtain m where m: "n = Suc m" by (cases n) auto
    let ?X = "render_members (kv # kvs) @ CHR ''}'' # rest"
    let ?Y = "CHR '':'' # render v @ CHR '','' # ?X"
    have ps: "parse_string (appendString_body k @ dquote # ?Y) = Some (coerceUTF8 k, ?Y)"
      by (rule parse_string_appendString)
    from t len m 12(1) have
      pv: "parse_value m (render v @ CHR '','' # ?X) = Some (coerce_json v, CHR '','' # ?X)"
      by simp
    from parse_object_step [OF ps pv] have
      a: "parse_object (Suc m) (dquote # appendString_body k @ dquote # ?Y) =
            (case parse_object m ?X of None \<Rightarrow> None
             | Some (kvs, r') \<Rightarrow> Some ((coerceUTF8 k, coerce_json v) # kvs, r'))"
      by (simp add: isSpace_def)
    from t len m 12(2) have
      "parse_object m ?X = Some (map (\<lambda>(k, v). (coerceUTF8 k, coerce_json v)) (kv # kvs), rest)"
      by simp
    with a m
    show "parse_object n (render_members ((k, v) # kv # kvs) @ CHR ''}'' # rest)
            = Some (map (\<lambda>(k, v). (coerceUTF8 k, coerce_json v)) ((k, v) # kv # kvs), rest)"
      by (simp add: appendString_def)
  qed
qed

text \<open>
  A document without numbers that \<open>json.Marshal\<close> has written is read back by
  \<open>json.Unmarshal\<close> as the same document, its strings coerced to valid UTF-8.
\<close>

lemma parseJSON_render:
  assumes "textual j"
  shows "parseJSON (render j) = Some (coerce_json j)"
proof -
  have "length (render j) \<le> 2 * length (render j) + 1" by simp
  with parse_render_all(1) [of j] assms have
    "parse_value (2 * length (render j) + 1) (render j @ []) = Some (coerce_json j, [])"
    by blast
  then show ?thesis by (simp add: parseJSON_def skip_ws_def)
qed

lemma parse_coerced:
  "(\<forall>s j r. parse_value n s = Some (j, r) \<longrightarrow> coerce_json j = j)
   \<and> (\<forall>s vs r. parse_array n s = Some (vs, r) \<longrightarrow> map coerce_json vs = vs)
   \<and> (\<forall>s kvs r. parse_object n s = Some (kvs, r) \<longrightarrow>
         map (\<lambda>(k, v). (coerceUTF8 k, coerce_json v)) kvs = kvs)"
proof (induction n)
  case 0
  show ?case by simp
next
  case (Suc n)
  from Suc have v: "coerce_json j = j" if "parse_value n s = Some (j, r)" for s j r
    using that by blast
  from Suc have a: "map coerce_json vs = vs" if "parse_array n s = Some (vs, r)" for s vs r
    using that by blast
  from Suc have ob: "map (\<lambda>(k, v). (coerceUTF8 k, coerce_json v)) kvs = kvs"
    if "parse_object n s = Some (kvs, r)" for s kvs r
    using that by blast
  have 1: "coerce_json j = j" if "parse_value (Suc n) s = Some (j, r)" for s j r
    using that
    by (auto split: list.splits if_splits option.splits prod.splits
          dest: parse_string_coerced a ob)
  have 2: "map coerce_json vs = vs" if "parse_array (Suc n) s = Some (vs, r)" for s vs r
    using that
    by (auto split: list.splits if_splits option.splits prod.splits dest: v a)
  have 3: "map (\<lambda>(k, v). (coerceUTF8 k, coerce_json v)) kvs = kvs"
    if "parse_object (Suc n) s = Some (kvs, r)" for s kvs r
    using that
    by (auto split: list.splits if_splits option.splits prod.splits
          dest: parse_string_coerced v ob)
  from 1 2 3 show ?case by blast
qed

lemma parseJSON_coerced:
  assumes "parseJSON s = Some j"
  shows "coerce_json j = j"
proof -
  from assms obtain r where "parse_value (2 * length s + 1) s = Some (j, r)"
    by (auto simp: parseJSON_def split: option.splits if_splits simp del: parse_value.simps)
  with parse_coerced [of "2 * length s + 1"] show ?thesis by blast
qed

section \<open>Properties\<close>

subsection \<open>Auxiliary facts\<close>

lemma isValidIdentifier_loop_set: "isValidIdentifier_loop v xs = (v \<in> set xs)"
  by (induction xs) auto

lemma isValidIdentifier_set: "isValidIdentifier v = (v \<in> set ValidIdentifiers)"
  by (simp add: isValidIdentifier_def isValidIdentifier_loop_set)

lemma decode_members_absent:
  "decode_members dec kvs m = Some m' \<Longrightarrow> k \<notin> fst ` set kvs \<Longrightarrow> m' k = m k"
  by (induction kvs arbitrary: m) (auto split: option.splits)

lemma decode_members_fails:
  "(k, v) \<in> set kvs \<Longrightarrow> dec v = None \<Longrightarrow> decode_members dec kvs m = None"
  by (induction kvs arbitrary: m) (auto split: option.splits)

lemma decode_members_total:
  "\<forall>(k, v) \<in> set kvs. dec v \<noteq> None \<Longrightarrow>
   \<exists>m'. decode_members dec kvs m = Some m' \<and>
     (\<forall>k. m' k = (case map_of (rev kvs) k of None \<Rightarrow> m k | Some v \<Rightarrow> dec v))"
proof (induction kvs arbitrary: m)
  case Nil
  then show ?case by simp
next
  case (Cons kv kvs)
  obtain k v where kv: "kv = (k, v)" by (cases kv)
  from Cons.prems kv obtain x where x: "dec v = Some x" by auto
  from Cons.prems have "\<forall>(k, v) \<in> set kvs. dec v \<noteq> None" by auto
  from Cons.IH [OF this, of "m(k \<mapsto> x)"] obtain m' where
    m': "decode_members dec kvs (m(k \<mapsto> x)) = Some m'"
    "\<forall>k'. m' k' = (case map_of (rev kvs) k' of None \<Rightarrow> (m(k \<mapsto> x)) k' | Some v \<Rightarrow> dec v)"
    by blast
  have "\<forall>k'. m' k' = (case map_of (rev (kv # kvs)) k' of None \<Rightarrow> m k' | Some v \<Rightarrow> dec v)"
    using m'(2) kv x by (auto simp: map_add_def split: option.splits)
  with m'(1) kv x show ?case by simp
qed

text \<open>\<open>Do\<close> once the cache has missed and the network has answered.\<close>

lemma Do_response:
  assumes "getCache (MarshalRequests [fr]) w = Inr None"
    and "transport w (httpRequest fr (MarshalRequests [fr])) = Response status b"
  shows "Do fr w =
     (let w1 = w\<lparr>http_calls := http_calls w @ [httpRequest fr (MarshalRequests [fr])]\<rparr> in
      if status \<noteq> 200 then (Inl ErrWrongStatus, w1)
      else (case b of
              ReadError err \<Rightarrow> (Inl (TransportError err), w1)
            | Body body \<Rightarrow> classify (MarshalRequests [fr]) body w1))"
  using assms by (simp add: Do_def Let_def)

subsection \<open>Status codes\<close>

text \<open>
  C3. When the cache gives nothing and the network answers with a status other than
  200, \<open>Do\<close> returns \<open>ErrWrongStatus\<close>. The body \<open>b\<close> of the answer is arbitrary and
  the result does not depend on it: it is not read, and nothing is written to the
  cache; the only change of the world is the request sent.
\<close>

theorem Do_wrong_status:
  assumes "getCache (MarshalRequests [fr]) w = Inr None"
    and "transport w (httpRequest fr (MarshalRequests [fr])) = Response status b"
    and "status \<noteq> 200"
  shows "Do fr w =
     (Inl ErrWrongStatus,
      w\<lparr>http_calls := http_calls w @ [httpRequest fr (MarshalRequests [fr])]\<rparr>)"
  using assms by (simp add: Do_response)

theorem Do_wrong_status_witness:
  "fst (Do ex_request (ex_world None None (Response 404 (Body ''[{\"data\":[]}]''))))
     = Inl ErrWrongStatus
   \<and> http_calls (snd (Do ex_request (ex_world None None (Response 404 (Body ''[{\"data\":[]}]'')))))
     = [httpRequest ex_request (MarshalRequests [ex_request])]"
proof -
  let ?w = "ex_world None None (Response 404 (Body ''[{\"data\":[]}]''))"
  have h1: "getCache (MarshalRequests [ex_request]) ?w = Inr None"
    by (simp add: getCache_def ex_world_def)
  have h2: "transport ?w (httpRequest ex_request (MarshalRequests [ex_request]))
              = Response 404 (Body ''[{\"data\":[]}]'')"
    by (simp add: ex_world_def)
  have h3: "(404::int) \<noteq> 200" by simp
  show ?thesis
    using Do_wrong_status [OF h1 h2 h3] by (simp add: ex_world_def)
qed

subsection \<open>Identifier types\<close>

text \<open>
  C4. \<open>NewRequest\<close> fails with \<open>ErrNotValidIdentifier\<close> exactly when the identifier
  type is not in \<open>ValidIdentifiers\<close>, a list of 21 distinct codes; otherwise it returns
  a request with the two arguments. \<open>NewRequest\<close> is a function of its two arguments
  alone: it has no access to the world, hence none to the network or the cache.
\<close>

theorem NewRequest_invalid_iff:
  "(NewRequest idtype idvalue = Inl ErrNotValidIdentifier \<longleftrightarrow> idtype \<notin> set ValidIdentifiers)
   \<and> (idtype \<in> set ValidIdentifiers \<longrightarrow>
        (\<exists>fr. NewRequest idtype idvalue = Inr fr \<and> IDType fr = idtype \<and> IDValue fr = idvalue))
   \<and> length ValidIdentifiers = 21 \<and> distinct ValidIdentifiers"
proof -
  have "length ValidIdentifiers = 21" by (simp add: ValidIdentifiers_def)
  moreover have "distinct ValidIdentifiers" by (simp add: ValidIdentifiers_def)
  ultimately show ?thesis
    by (simp add: NewRequest_def isValidIdentifier_set)
qed

theorem NewRequest_invalid_iff_witness:
  "NewRequest ''BOGUS'' ''US3623931009'' = Inl ErrNotValidIdentifier
   \<and> (\<exists>fr. NewRequest ''TICKER'' ''GTT'' = Inr fr \<and> IDType fr = ''TICKER'' \<and> IDValue fr = ''GTT'')"
proof -
  have a: "''BOGUS'' \<notin> set ValidIdentifiers" by (simp add: ValidIdentifiers_def)
  have b: "''TICKER'' \<in> set ValidIdentifiers" by (simp add: ValidIdentifiers_def)
  from a b NewRequest_invalid_iff [of "''BOGUS''" "''US3623931009''"]
    NewRequest_invalid_iff [of "''TICKER''" "''GTT''"]
  show ?thesis by blast
qed

lemma classify_success:
  assumes "Unmarshal (decode_slice (decode_map decode_FIGIs)) body = Inr (d0 # ds)"
  shows "classify js body w =
     (case setCache js (index d0 ''data'' None) w of
        Inl err \<Rightarrow> (Inl ErrCacheError, w)
      | Inr w' \<Rightarrow> (Inr (index d0 ''data'' None), w'))"
  using assms by (simp add: classify_def)

subsection \<open>A failing write to the cache\<close>

text \<open>
  C5. With the cache enabled, when the cache has no entry, the network answers with
  status 200 and a body that decodes as the success shape with at least one envelope,
  and the \<open>SET\<close> fails, \<open>Do\<close> returns \<open>ErrCacheError\<close>. The result is an error and
  carries no records (a result is either an error or a record list), and the store is
  left as it was.
\<close>

theorem Do_cache_write_fails:
  assumes "rpool w = Some addr"
    and "getCache (MarshalRequests [fr]) w = Inr None"
    and "transport w (httpRequest fr (MarshalRequests [fr])) = Response 200 (Body body)"
    and "Unmarshal (decode_slice (decode_map decode_FIGIs)) body = Inr (d0 # ds)"
    and "redis_set_error w = Some e"
  shows "Do fr w =
     (Inl ErrCacheError,
      w\<lparr>http_calls := http_calls w @ [httpRequest fr (MarshalRequests [fr])]\<rparr>)"
  using assms
  by (simp add: Do_response classify_success setCache_def redis_SET_def)

theorem Do_cache_write_fails_witness:
  "fst (Do ex_request (ex_world (Some ''localhost:6379'') (Some ''READONLY'')
         (Response 200 (Body ''[{\"data\":[{\"figi\":\"BBG000BLNNH6\",\"ticker\":\"GTT\"}]}]''))))
     = Inl ErrCacheError
   \<and> redis_data (snd (Do ex_request (ex_world (Some ''localhost:6379'') (Some ''READONLY'')
         (Response 200 (Body ''[{\"data\":[{\"figi\":\"BBG000BLNNH6\",\"ticker\":\"GTT\"}]}]'')))))
         (MarshalRequests [ex_request]) = None"
proof -
  let ?body = "''[{\"data\":[{\"figi\":\"BBG000BLNNH6\",\"ticker\":\"GTT\"}]}]''"
  let ?w = "ex_world (Some ''localhost:6379'') (Some ''READONLY'') (Response 200 (Body ?body))"
  have h1: "rpool ?w = Some ''localhost:6379''" by (simp add: ex_world_def)
  have h2: "getCache (MarshalRequests [ex_request]) ?w = Inr None"
    by (simp add: getCache_def redis_GET_def ex_world_def)
  have h3: "transport ?w (httpRequest ex_request (MarshalRequests [ex_request]))
              = Response 200 (Body ?body)"
    by (simp add: ex_world_def)
  have "(case Unmarshal (decode_slice (decode_map decode_FIGIs)) ?body of
           Inr (d # ds) \<Rightarrow> True | _ \<Rightarrow> False)"
    by code_simp
  then obtain d0 ds where
    h4: "Unmarshal (decode_slice (decode_map decode_FIGIs)) ?body = Inr (d0 # ds)"
    by (auto split: sum.splits list.splits)
  have h5: "redis_set_error ?w = Some ''READONLY''" by (simp add: ex_world_def)
  show ?thesis
    using Do_cache_write_fails [OF h1 h2 h3 h4 h5] by (simp add: ex_world_def)
qed

subsection \<open>The API key\<close>

text \<open>
  C9. Changing the API key of a request changes neither the text \<open>Do\<close> serializes (which
  is also the key of the cache) nor any part of the HTTP request but its header. The
  header \<open>X-OPENFIGI-APIKEY\<close> is set, to the key, exactly when the key is not empty.
\<close>

theorem apiKey_only_in_header:
  "MarshalRequests [fr\<lparr>apiKey := key\<rparr>] = MarshalRequests [fr]
   \<and> httpRequest (fr\<lparr>apiKey := key\<rparr>) js
       = (httpRequest fr js)\<lparr>header := header (httpRequest (fr\<lparr>apiKey := key\<rparr>) js)\<rparr>
   \<and> reqbody (httpRequest fr js) = js
   \<and> Header_Get (header (httpRequest fr js)) ''X-OPENFIGI-APIKEY''
       = (if apiKey fr = [] then None else Some (apiKey fr))
   \<and> Header_Get (header (httpRequest fr js)) ''Content-Type'' = Some ''application/json''
   \<and> APIKey key fr = fr\<lparr>apiKey := key\<rparr>"
  by (simp add: MarshalRequests_def requestJSON_def requestFields_def httpRequest_def
        Header_Get_def Header_Set_def APIKey_def)

subsection \<open>An envelope without records\<close>

text \<open>
  C10. When the cache has no entry, the network answers with status 200, the body is an
  array whose first envelope is an object without the key \<open>data\<close>, and the body
  decodes as the success shape, \<open>Do\<close> returns the nil record list and no error: with the
  cache disabled the world changes by the request sent only, and with the cache enabled
  and a \<open>SET\<close> that does not fail the text \<open>null\<close> is stored under the serialized
  request.
\<close>

theorem Do_envelope_without_data:
  assumes "getCache (MarshalRequests [fr]) w = Inr None"
    and "transport w (httpRequest fr (MarshalRequests [fr])) = Response 200 (Body body)"
    and "parseJSON body = Some (JArr (JObj kvs # envs))"
    and "''data'' \<notin> fst ` set kvs"
    and "decode_slice (decode_map decode_FIGIs) (JArr (JObj kvs # envs)) = Some data"
  shows "(rpool w = None \<longrightarrow>
            Do fr w =
              (Inr None,
               w\<lparr>http_calls := http_calls w @ [httpRequest fr (MarshalRequests [fr])]\<rparr>))
       \<and> (rpool w \<noteq> None \<and> redis_set_error w = None \<longrightarrow>
            Do fr w =
              (Inr None,
               w\<lparr>http_calls := http_calls w @ [httpRequest fr (MarshalRequests [fr])],
                  redis_data := (redis_data w)(MarshalRequests [fr] \<mapsto> ''null'')\<rparr>))"
proof -
  from assms(5) obtain d0 ds where
    d: "data = d0 # ds"
    and d0: "decode_members decode_FIGIs kvs Map.empty = Some d0"
    by (auto simp: decode_slice_def decode_map_def split: option.splits)
  from decode_members_absent [OF d0 assms(4)] have "index d0 ''data'' None = None"
    by (simp add: index_def)
  moreover have "Unmarshal (decode_slice (decode_map decode_FIGIs)) body = Inr (d0 # ds)"
    using assms(3,5) d by (simp add: Unmarshal_def)
  moreover have "MarshalFIGIs None = ''null''"
    by (simp add: MarshalFIGIs_def figisJSON_def)
  ultimately show ?thesis
    using assms(1,2)
    by (auto simp: Do_response classify_success setCache_def redis_SET_def)
qed

theorem Do_envelope_without_data_witness:
  "fst (Do ex_request (ex_world None None (Response 200 (Body ''[{}]'')))) = Inr None
   \<and> fst (Do ex_request (ex_world (Some ''localhost:6379'') None
            (Response 200 (Body ''[{\"warning\":null}]'')))) = Inr None
   \<and> redis_data (snd (Do ex_request (ex_world (Some ''localhost:6379'') None
            (Response 200 (Body ''[{\"warning\":null}]'')))))
        (MarshalRequests [ex_request]) = Some ''null''"
proof -
  let ?w1 = "ex_world None None (Response 200 (Body ''[{}]''))"
  let ?w2 = "ex_world (Some ''localhost:6379'') None (Response 200 (Body ''[{\"warning\":null}]''))"
  have a1: "getCache (MarshalRequests [ex_request]) ?w1 = Inr None"
    by (simp add: getCache_def ex_world_def)
  have a2: "transport ?w1 (httpRequest ex_request (MarshalRequests [ex_request]))
              = Response 200 (Body ''[{}]'')"
    by (simp add: ex_world_def)
  have a3: "parseJSON ''[{}]'' = Some (JArr (JObj [] # []))" by code_simp
  have a4: "''data'' \<notin> fst ` set ([] :: (string \<times> json) list)" by simp
  have a5: "decode_slice (decode_map decode_FIGIs) (JArr (JObj [] # [])) = Some [Map.empty]"
    by (simp add: decode_slice_def decode_map_def)
  have b1: "getCache (MarshalRequests [ex_request]) ?w2 = Inr None"
    by (simp add: getCache_def redis_GET_def ex_world_def)
  have b2: "transport ?w2 (httpRequest ex_request (MarshalRequests [ex_request]))
              = Response 200 (Body ''[{\"warning\":null}]'')"
    by (simp add: ex_world_def)
  have b3: "parseJSON ''[{\"warning\":null}]'' = Some (JArr (JObj [(''warning'', JNull)] # []))"
    by code_simp
  have b4: "''data'' \<notin> fst ` set [(''warning'', JNull)]" by simp
  have b5: "decode_slice (decode_map decode_FIGIs) (JArr (JObj [(''warning'', JNull)] # []))
              = Some [[''warning'' \<mapsto> None]]"
    by (simp add: decode_slice_def decode_map_def decode_FIGIs_def)
  have c1: "rpool ?w1 = None" by (simp add: ex_world_def)
  have c2: "rpool ?w2 \<noteq> None \<and> redis_set_error ?w2 = None" by (simp add: ex_world_def)
  show ?thesis
    using Do_envelope_without_data [OF a1 a2 a3 a4 a5] c1
      Do_envelope_without_data [OF b1 b2 b3 b4 b5] c2
    by simp
qed

lemma map_of_rev_in_set: "map_of (rev kvs) k = Some v \<Longrightarrow> (k, v) \<in> set kvs"
  using map_of_SomeD by fastforce

subsection \<open>The message \<open>No identifier found.\<close>\<close>

text \<open>
  C1, as stated, fails: an envelope whose \<open>error\<close> is \<open>No identifier found.\<close> and which
  has a further member that is no string (here \<open>data\<close>, an empty array) decodes neither
  as the success shape nor as the error shape, and \<open>Do\<close> returns the error of
  \<open>json.Unmarshal\<close>.
\<close>

theorem Do_no_identifier_other_fields_counterexample:
  "parseJSON ''[{\"error\":\"No identifier found.\",\"data\":[]}]''
     = Some (JArr [JObj [(''error'', JStr ''No identifier found.''), (''data'', JArr [])]])
   \<and> fst (Do ex_request (ex_world None None
            (Response 200 (Body ''[{\"error\":\"No identifier found.\",\"data\":[]}]''))))
       = Inl (JSONError UnmarshalTypeError)
   \<and> fst (Do ex_request (ex_world None None
            (Response 200 (Body ''[{\"error\":\"No identifier found.\",\"data\":[]}]''))))
       \<noteq> Inl ErrNoIdentifierFound"
proof -
  have a: "parseJSON ''[{\"error\":\"No identifier found.\",\"data\":[]}]''
     = Some (JArr [JObj [(''error'', JStr ''No identifier found.''), (''data'', JArr [])]])"
    by code_simp
  have b: "fst (Do ex_request (ex_world None None
            (Response 200 (Body ''[{\"error\":\"No identifier found.\",\"data\":[]}]''))))
       = Inl (JSONError UnmarshalTypeError)"
    by code_simp
  from a b show ?thesis by simp
qed

text \<open>
  C1, amended. When the cache has no entry, the network answers with status 200, the
  body is an array of one envelope, every member of the envelope is a string or \<open>null\<close>,
  and the (last) member \<open>error\<close> is the string \<open>No identifier found.\<close>, \<open>Do\<close> returns
  \<open>ErrNoIdentifierFound\<close>, whatever the other members are.
\<close>

theorem Do_no_identifier_found:
  assumes "getCache (MarshalRequests [fr]) w = Inr None"
    and "transport w (httpRequest fr (MarshalRequests [fr])) = Response 200 (Body body)"
    and "parseJSON body = Some (JArr [JObj kvs])"
    and "map_of (rev kvs) ''error'' = Some (JStr ''No identifier found.'')"
    and "\<forall>(k, v) \<in> set kvs. v = JNull \<or> (\<exists>s. v = JStr s)"
  shows "Do fr w =
     (Inl ErrNoIdentifierFound,
      w\<lparr>http_calls := http_calls w @ [httpRequest fr (MarshalRequests [fr])]\<rparr>)"
proof -
  have mem: "(''error'', JStr ''No identifier found.'') \<in> set kvs"
    using assms(4) by (rule map_of_rev_in_set)
  have "decode_FIGIs (JStr ''No identifier found.'') = None"
    by (simp add: decode_FIGIs_def)
  with mem have "decode_members decode_FIGIs kvs Map.empty = None"
    by (rule decode_members_fails)
  then have first: "Unmarshal (decode_slice (decode_map decode_FIGIs)) body
                      = Inl UnmarshalTypeError"
    using assms(3) by (simp add: Unmarshal_def decode_slice_def decode_map_def)
  have "\<forall>(k, v) \<in> set kvs. decode_string v \<noteq> None"
    using assms(5) by (auto simp: decode_string_def)
  from decode_members_total [OF this, of Map.empty] obtain m where
    m: "decode_members decode_string kvs Map.empty = Some m"
    and look: "\<forall>k. m k = (case map_of (rev kvs) k of None \<Rightarrow> None | Some v \<Rightarrow> decode_string v)"
    by auto
  have second: "Unmarshal (decode_slice (decode_map decode_string)) body = Inr [m]"
    using assms(3) m by (simp add: Unmarshal_def decode_slice_def decode_map_def)
  have "index m ''error'' [] = ''No identifier found.''"
    using look assms(4) by (simp add: index_def decode_string_def)
  with first second have "classify js body w' = (Inl ErrNoIdentifierFound, w')" for js w'
    by (simp add: classify_def)
  with assms(1,2) show ?thesis by (simp add: Do_response)
qed

theorem Do_no_identifier_found_witness:
  "fst (Do ex_request (ex_world None None
     (Response 200 (Body ''[{\"error\":\"No identifier found.\",\"warning\":\"x\",\"id\":null}]''))))
     = Inl ErrNoIdentifierFound"
proof -
  let ?body = "''[{\"error\":\"No identifier found.\",\"warning\":\"x\",\"id\":null}]''"
  let ?kvs = "[(''error'', JStr ''No identifier found.''), (''warning'', JStr ''x''), (''id'', JNull)]"
  let ?w = "ex_world None None (Response 200 (Body ?body))"
  have h1: "getCache (MarshalRequests [ex_request]) ?w = Inr None"
    by (simp add: getCache_def ex_world_def)
  have h2: "transport ?w (httpRequest ex_request (MarshalRequests [ex_request]))
              = Response 200 (Body ?body)"
    by (simp add: ex_world_def)
  have h3: "parseJSON ?body = Some (JArr [JObj ?kvs])" by code_simp
  have h4: "map_of (rev ?kvs) ''error'' = Some (JStr ''No identifier found.'')" by simp
  have h5: "\<forall>(k, v) \<in> set ?kvs. v = JNull \<or> (\<exists>s. v = JStr s)" by simp
  show ?thesis
    using Do_no_identifier_found [OF h1 h2 h3 h4 h5] by simp
qed

subsection \<open>Other error messages\<close>

lemma doPrintf_no_percent: "CHR ''%'' \<notin> set s \<Longrightarrow> doPrintf s = s"
  by (induction s) auto

text \<open>
  The error shape, once the success shape has failed to decode: no envelope or an empty
  message give \<open>ErrAPIError\<close>, the message \<open>No identifier found.\<close> gives
  \<open>ErrNoIdentifierFound\<close>, and any other message is handed to \<open>fmt.Errorf\<close> as its
  format.
\<close>

lemma classify_error_shape:
  assumes "Unmarshal (decode_slice (decode_map decode_FIGIs)) body = Inl err"
    and "Unmarshal (decode_slice (decode_map decode_string)) body = Inr data"
  shows "classify js body w =
     (case data of
        [] \<Rightarrow> (Inl ErrAPIError, w)
      | d0 # _ \<Rightarrow>
          if index d0 ''error'' [] = ''No identifier found.'' then (Inl ErrNoIdentifierFound, w)
          else if index d0 ''error'' [] \<noteq> []
          then (Inl (ErrorString (doPrintf (index d0 ''error'' []))), w)
          else (Inl ErrAPIError, w))"
  using assms by (simp add: classify_def Errorf_def Let_def split: list.splits)

lemma classify_error_message_plain:
  assumes "Unmarshal (decode_slice (decode_map decode_FIGIs)) body = Inl err"
    and "Unmarshal (decode_slice (decode_map decode_string)) body = Inr (d0 # ds)"
    and "index d0 ''error'' [] = msg"
    and "msg \<noteq> []" and "msg \<noteq> ''No identifier found.''"
    and "CHR ''%'' \<notin> set msg"
  shows "classify js body w = (Inl (ErrorString msg), w)"
  using assms by (simp add: classify_error_shape doPrintf_no_percent)

lemma classify_empty_array:
  assumes "parseJSON body = Some (JArr [])"
  shows "classify js body w = (Inl ErrAPIError, w)"
  using assms by (simp add: classify_def Unmarshal_def decode_slice_def)

text \<open>
  C2 fails where the message has a percent sign: the message is the format of
  \<open>fmt.Errorf\<close>, and the error that \<open>Do\<close> returns for the message \<open>100%\<close> has the
  text \<open>100%!(NOVERB)\<close>.
\<close>

theorem Do_error_message_as_format:
  "parseJSON ''[{\"error\":\"100%\"}]'' = Some (JArr [JObj [(''error'', JStr ''100%'')]])
   \<and> fst (Do ex_request (ex_world None None (Response 200 (Body ''[{\"error\":\"100%\"}]''))))
       = Inl (ErrorString ''100%!(NOVERB)'')"
proof -
  have a: "parseJSON ''[{\"error\":\"100%\"}]'' = Some (JArr [JObj [(''error'', JStr ''100%'')]])"
    by code_simp
  have b: "fst (Do ex_request (ex_world None None (Response 200 (Body ''[{\"error\":\"100%\"}]''))))
       = Inl (ErrorString ''100%!(NOVERB)'')"
    by code_simp
  from a b show ?thesis by simp
qed

subsection \<open>Records through the cache\<close>

lemma find_in_set: "find P xs = Some p \<Longrightarrow> p \<in> set xs"
  by (auto simp: find_Some_iff)

lemma findField_cases:
  assumes "findField k = Some store"
  shows "store \<in> snd ` set figiFields"
proof (cases "find (\<lambda>p. fst p = k) figiFields")
  case (Some p)
  with assms have "store = snd p" by (simp add: findField_def)
  with find_in_set [OF Some] show ?thesis by simp
next
  case None
  with assms obtain p where "find (\<lambda>p. equalFold (fst p) k) figiFields = Some p" "store = snd p"
    by (auto simp: findField_def)
  with find_in_set [of _ figiFields p] show ?thesis by simp
qed

lemma findField_valid:
  assumes "findField k = Some store" "validFIGI r" "coerceUTF8 s = s"
  shows "validFIGI (store s r)"
proof -
  from findField_cases [OF assms(1)] have "store \<in> snd ` set figiFields" .
  then show ?thesis
    using assms(2,3) unfolding figiFields_def validFIGI_def by auto
qed

lemma coerceUTF8_all_ascii: "list_all (\<lambda>c. byte c < 0x80) s \<Longrightarrow> coerceUTF8 s = s"
  by (induction s) (simp_all add: coerceUTF8_ascii del: coerceUTF8.simps(2))

lemma map_fixed: "map f xs = xs \<Longrightarrow> x \<in> set xs \<Longrightarrow> f x = x"
  by (induction xs) auto

lemma coerce_json_members:
  assumes "coerce_json (JObj kvs) = JObj kvs" "(k, v) \<in> set kvs"
  shows "coerce_json v = v" "coerceUTF8 k = k"
proof -
  from assms(1) have "map (\<lambda>(k, v). (coerceUTF8 k, coerce_json v)) kvs = kvs" by simp
  from map_fixed [OF this assms(2)] show "coerce_json v = v" "coerceUTF8 k = k" by simp_all
qed

lemma coerce_json_elems:
  assumes "coerce_json (JArr vs) = JArr vs" "v \<in> set vs"
  shows "coerce_json v = v"
proof -
  from assms(1) have "map coerce_json vs = vs" by simp
  from map_fixed [OF this assms(2)] show ?thesis .
qed

lemma decode_FIGI_members_valid:
  "decode_FIGI_members kvs r = Some r' \<Longrightarrow> validFIGI r \<Longrightarrow>
   (\<forall>(k, v) \<in> set kvs. coerce_json v = v) \<Longrightarrow> validFIGI r'"
proof (induction kvs arbitrary: r)
  case Nil
  then show ?case by simp
next
  case (Cons kv kvs)
  obtain k v where kv: "kv = (k, v)" by (cases kv)
  from Cons.prems(3) have rest: "\<forall>(k, v) \<in> set kvs. coerce_json v = v" by simp
  show ?case
  proof (cases "findField k")
    case None
    with Cons.prems(1) kv have "decode_FIGI_members kvs r = Some r'" by simp
    from Cons.IH [OF this Cons.prems(2) rest] show ?thesis .
  next
    case (Some store)
    show ?thesis
    proof (cases v)
      case (JStr s)
      with Cons.prems(3) kv have "coerceUTF8 s = s" by simp
      from findField_valid [OF Some Cons.prems(2) this] have vf: "validFIGI (store s r)" .
      from Cons.prems(1) kv Some JStr
      have dm: "decode_FIGI_members kvs (store s r) = Some r'" by simp
      from Cons.IH [OF dm vf rest] show ?thesis .
    next
      case JNull
      with Cons.prems(1) kv Some have "decode_FIGI_members kvs r = Some r'" by simp
      from Cons.IH [OF this Cons.prems(2) rest] show ?thesis .
    next
      case (JBool b)
      with Cons.prems(1) kv Some show ?thesis by simp
    next
      case (JNum t)
      with Cons.prems(1) kv Some show ?thesis by simp
    next
      case (JArr vs)
      with Cons.prems(1) kv Some show ?thesis by simp
    next
      case (JObj ms)
      with Cons.prems(1) kv Some show ?thesis by simp
    qed
  qed
qed

lemma validFIGI_zero: "validFIGI zeroFIGI"
  by (simp add: validFIGI_def zeroFIGI_def)

lemma decode_FIGI_ptr_valid:
  assumes "decode_FIGI_ptr j = Some x" "coerce_json j = j"
  shows "valid_ptr x"
proof (cases j)
  case JNull
  with assms(1) show ?thesis by (simp add: decode_FIGI_ptr_def valid_ptr_def)
next
  case (JObj kvs)
  with assms(1) obtain r where r: "decode_FIGI_members kvs zeroFIGI = Some r" "x = Some r"
    by (auto simp: decode_FIGI_ptr_def)
  have "\<forall>(k, v) \<in> set kvs. coerce_json v = v"
    using coerce_json_members(1) [of kvs] assms(2) JObj by auto
  from decode_FIGI_members_valid [OF r(1) validFIGI_zero this] r(2)
  show ?thesis by (simp add: valid_ptr_def)
qed (use assms(1) in \<open>simp_all add: decode_FIGI_ptr_def\<close>)

lemma traverse_all:
  "traverse f xs = Some ys \<Longrightarrow> (\<forall>x \<in> set xs. \<forall>y. f x = Some y \<longrightarrow> P y) \<Longrightarrow>
   list_all P ys"
  by (induction xs arbitrary: ys) (auto split: option.splits)

lemma decode_FIGIs_valid:
  assumes "decode_FIGIs j = Some d" "coerce_json j = j"
  shows "valid_figis d"
proof (cases j)
  case JNull
  with assms(1) show ?thesis by (simp add: decode_FIGIs_def valid_figis_def)
next
  case (JArr vs)
  with assms(1) obtain rs where rs: "traverse decode_FIGI_ptr vs = Some rs" "d = Some rs"
    by (auto simp: decode_FIGIs_def)
  have "\<forall>v \<in> set vs. \<forall>x. decode_FIGI_ptr v = Some x \<longrightarrow> valid_ptr x"
    using coerce_json_elems [of vs] assms(2) JArr by (auto intro: decode_FIGI_ptr_valid)
  from traverse_all [OF rs(1) this] have "list_all valid_ptr rs" .
  with rs(2) show ?thesis by (simp add: valid_figis_def)
qed (use assms(1) in \<open>simp_all add: decode_FIGIs_def\<close>)

lemma decode_members_valid:
  "decode_members decode_FIGIs kvs m = Some m' \<Longrightarrow>
   (\<forall>(k, v) \<in> set kvs. coerce_json v = v) \<Longrightarrow>
   (\<forall>k d. m k = Some d \<longrightarrow> valid_figis d) \<Longrightarrow> m' k = Some d \<Longrightarrow> valid_figis d"
proof (induction kvs arbitrary: m)
  case Nil
  then show ?case by simp
next
  case (Cons kv kvs)
  obtain k0 v where kv: "kv = (k0, v)" by (cases kv)
  from Cons.prems(1) kv obtain x where
    x: "decode_FIGIs v = Some x" "decode_members decode_FIGIs kvs (m(k0 \<mapsto> x)) = Some m'"
    by (auto split: option.splits)
  from Cons.prems(2) kv have "coerce_json v = v" by simp
  from decode_FIGIs_valid [OF x(1) this] have "valid_figis x" .
  with Cons.prems(3) have "\<forall>k d. (m(k0 \<mapsto> x)) k = Some d \<longrightarrow> valid_figis d" by simp
  moreover from Cons.prems(2) have "\<forall>(k, v) \<in> set kvs. coerce_json v = v" by simp
  ultimately show ?case using Cons.IH [OF x(2)] Cons.prems(4) by blast
qed

text \<open>Records decoded from a response body have valid UTF-8 in every field.\<close>

lemma Unmarshal_data_valid:
  assumes "Unmarshal (decode_slice (decode_map decode_FIGIs)) body = Inr (d0 # ds)"
  shows "valid_figis (index d0 k None)"
proof -
  from assms obtain j where j: "parseJSON body = Some j"
    and dec: "decode_slice (decode_map decode_FIGIs) j = Some (d0 # ds)"
    by (auto simp: Unmarshal_def split: option.splits)
  from parseJSON_coerced [OF j] have cj: "coerce_json j = j" .
  from dec obtain v0 vs where vs: "j = JArr (v0 # vs)"
    and d0: "decode_map decode_FIGIs v0 = Some d0"
    by (cases j; cases "case j of JArr vs \<Rightarrow> vs | _ \<Rightarrow> []")
       (auto simp: decode_slice_def split: option.splits)
  from coerce_json_elems [of "v0 # vs" v0] cj vs have c0: "coerce_json v0 = v0" by simp
  show ?thesis
  proof (cases "d0 k")
    case None
    then show ?thesis by (simp add: index_def valid_figis_def)
  next
    case (Some d)
    have "valid_figis d"
    proof (cases v0)
      case JNull
      with d0 Some show ?thesis by (auto simp: decode_map_def)
    next
      case (JObj kvs)
      with d0 have dm: "decode_members decode_FIGIs kvs Map.empty = Some d0"
        by (simp add: decode_map_def)
      have "\<forall>(k, v) \<in> set kvs. coerce_json v = v"
        using coerce_json_members(1) [of kvs] c0 JObj by auto
      from decode_members_valid [OF dm this _ Some] show ?thesis by simp
    qed (use d0 in \<open>simp_all add: decode_map_def\<close>)
    with Some show ?thesis by (simp add: index_def)
  qed
qed

lemma findField_names:
  "findField ''figi'' = Some (\<lambda>v r. r\<lparr>FIGI := v\<rparr>)"
  "findField ''securityType'' = Some (\<lambda>v r. r\<lparr>SecurityType := v\<rparr>)"
  "findField ''marketSector'' = Some (\<lambda>v r. r\<lparr>MarketSector' := v\<rparr>)"
  "findField ''ticker'' = Some (\<lambda>v r. r\<lparr>Ticker := v\<rparr>)"
  "findField ''name'' = Some (\<lambda>v r. r\<lparr>Name := v\<rparr>)"
  "findField ''uniqueID'' = Some (\<lambda>v r. r\<lparr>UniqueID := v\<rparr>)"
  "findField ''exchCode'' = Some (\<lambda>v r. r\<lparr>ExchangeCode' := v\<rparr>)"
  "findField ''shareClassFIGI'' = Some (\<lambda>v r. r\<lparr>ShareClassFIGI := v\<rparr>)"
  "findField ''compositeFIGI'' = Some (\<lambda>v r. r\<lparr>CompositeFIGI := v\<rparr>)"
  "findField ''securityType2'' = Some (\<lambda>v r. r\<lparr>SecurityType2 := v\<rparr>)"
  "findField ''securityDescription'' = Some (\<lambda>v r. r\<lparr>SecurityDescription := v\<rparr>)"
  "findField ''uniqueIDFutOpt'' = Some (\<lambda>v r. r\<lparr>UniqueIDFutOpt := v\<rparr>)"
  by (simp_all add: findField_def figiFields_def)

lemma decode_FIGI_ptr_figiJSON: "decode_FIGI_ptr (figiJSON r) = Some (Some r)"
  by (cases r) (simp add: decode_FIGI_ptr_def figiJSON_def findField_names zeroFIGI_def)

lemma traverse_map_Some: "(\<forall>x \<in> set xs. f (g x) = Some x) \<Longrightarrow> traverse f (map g xs) = Some xs"
  by (induction xs) auto

text \<open>Decoding the document of a record list gives the list back.\<close>

lemma decode_FIGIs_figisJSON: "decode_FIGIs (figisJSON d) = Some d"
proof (cases d)
  case None
  then show ?thesis by (simp add: decode_FIGIs_def figisJSON_def)
next
  case (Some rs)
  have n: "decode_FIGI_ptr JNull = Some None" by (simp add: decode_FIGI_ptr_def)
  have "\<forall>x \<in> set rs. decode_FIGI_ptr (case x of None \<Rightarrow> JNull | Some r \<Rightarrow> figiJSON r) = Some x"
    by (auto simp: decode_FIGI_ptr_figiJSON n split: option.splits)
  from traverse_map_Some [of rs decode_FIGI_ptr, OF this] Some
  show ?thesis by (simp add: decode_FIGIs_def figisJSON_def)
qed

lemma field_names_ascii:
  "coerceUTF8 ''figi'' = ''figi''"
  "coerceUTF8 ''securityType'' = ''securityType''"
  "coerceUTF8 ''marketSector'' = ''marketSector''"
  "coerceUTF8 ''ticker'' = ''ticker''"
  "coerceUTF8 ''name'' = ''name''"
  "coerceUTF8 ''uniqueID'' = ''uniqueID''"
  "coerceUTF8 ''exchCode'' = ''exchCode''"
  "coerceUTF8 ''shareClassFIGI'' = ''shareClassFIGI''"
  "coerceUTF8 ''compositeFIGI'' = ''compositeFIGI''"
  "coerceUTF8 ''securityType2'' = ''securityType2''"
  "coerceUTF8 ''securityDescription'' = ''securityDescription''"
  "coerceUTF8 ''uniqueIDFutOpt'' = ''uniqueIDFutOpt''"
  "coerceUTF8 ''idType'' = ''idType''"
  "coerceUTF8 ''idValue'' = ''idValue''"
  "coerceUTF8 ''micCode'' = ''micCode''"
  "coerceUTF8 ''currency'' = ''currency''"
  "coerceUTF8 ''marketSecDes'' = ''marketSecDes''"
  by (rule coerceUTF8_all_ascii, simp add: byte_def)+

lemma coerce_json_figiJSON: "validFIGI r \<Longrightarrow> coerce_json (figiJSON r) = figiJSON r"
  by (simp add: figiJSON_def validFIGI_def field_names_ascii del: coerceUTF8.simps)

lemma coerce_json_figisJSON: "valid_figis d \<Longrightarrow> coerce_json (figisJSON d) = figisJSON d"
proof (cases d)
  case None
  then show ?thesis by (simp add: figisJSON_def)
next
  case (Some rs)
  assume "valid_figis d"
  with Some have "list_all valid_ptr rs" by (simp add: valid_figis_def)
  then have "map (coerce_json \<circ> (\<lambda>x. case x of None \<Rightarrow> JNull | Some r \<Rightarrow> figiJSON r)) rs
              = map (\<lambda>x. case x of None \<Rightarrow> JNull | Some r \<Rightarrow> figiJSON r) rs"
    by (induction rs) (auto simp: valid_ptr_def coerce_json_figiJSON split: option.splits)
  with Some show ?thesis by (simp add: figisJSON_def)
qed

lemma textual_figisJSON: "textual (figisJSON d)"
proof (cases d)
  case None
  then show ?thesis by (simp add: figisJSON_def)
next
  case (Some rs)
  have "list_all textual (map (\<lambda>x. case x of None \<Rightarrow> JNull | Some r \<Rightarrow> figiJSON r) rs)"
    by (induction rs) (auto simp: figiJSON_def split: option.splits)
  with Some show ?thesis by (simp add: figisJSON_def)
qed

text \<open>
  What \<open>setCache\<close> writes for records with valid UTF-8 in every field, \<open>getCache\<close> reads
  back as the same records.
\<close>

lemma Unmarshal_MarshalFIGIs:
  assumes "valid_figis d"
  shows "Unmarshal decode_FIGIs (MarshalFIGIs d) = Inr d"
  using parseJSON_render [OF textual_figisJSON, of d] coerce_json_figisJSON [OF assms]
  by (simp add: Unmarshal_def MarshalFIGIs_def decode_FIGIs_figisJSON)

lemma getCache_entry:
  assumes "rpool w = Some addr" "redis_get_error w = None" "redis_data w key = Some b"
  shows "getCache key w =
     (case Unmarshal decode_FIGIs b of Inl e \<Rightarrow> Inl (JSONError e) | Inr d \<Rightarrow> Inr d)"
  using assms by (simp add: getCache_def redis_GET_def)

lemma getCache_hit_entry:
  assumes "rpool w = Some addr" "getCache key w = Inr (Some recs)"
  shows "\<exists>b. redis_data w key = Some b \<and> Unmarshal decode_FIGIs b = Inr (Some recs)"
  using assms
  by (auto simp: getCache_def redis_GET_def split: option.splits sum.splits)

text \<open>
  How \<open>Do\<close> can return records: from the cache, the world unchanged, or from the network,
  with the records stored under the serialized request when the pool is set.
\<close>

lemma Do_records_cases:
  assumes "Do fr w = (Inr (Some recs), w')"
  shows "(getCache (MarshalRequests [fr]) w = Inr (Some recs) \<and> w' = w)
       \<or> (\<exists>body d0 ds.
            getCache (MarshalRequests [fr]) w = Inr None
            \<and> Unmarshal (decode_slice (decode_map decode_FIGIs)) body = Inr (d0 # ds)
            \<and> index d0 ''data'' None = Some recs
            \<and> setCache (MarshalRequests [fr]) (Some recs)
                 (w\<lparr>http_calls := http_calls w @ [httpRequest fr (MarshalRequests [fr])]\<rparr>)
               = Inr w')"
proof (cases "getCache (MarshalRequests [fr]) w")
  case (Inl e)
  with assms show ?thesis by (simp add: Do_def)
next
  case (Inr cached)
  show ?thesis
  proof (cases cached)
    case (Some rs)
    with assms Inr show ?thesis by (simp add: Do_def)
  next
    case None
    let ?js = "MarshalRequests [fr]"
    let ?w1 = "w\<lparr>http_calls := http_calls w @ [httpRequest fr ?js]\<rparr>"
    from assms Inr None obtain body where
      c: "classify ?js body ?w1 = (Inr (Some recs), w')"
      by (auto simp: Do_def Let_def split: http_result.splits if_splits body_read.splits)
    then obtain d0 ds where
      u: "Unmarshal (decode_slice (decode_map decode_FIGIs)) body = Inr (d0 # ds)"
      by (auto simp: classify_def Let_def split: sum.splits list.splits if_splits)
    from c have "index d0 ''data'' None = Some recs"
      and "setCache ?js (Some recs) ?w1 = Inr w'"
      by (auto simp: classify_success [OF u] split: sum.splits)
    with Inr None u show ?thesis by blast
  qed
qed

subsection \<open>The cache round trip\<close>

text \<open>
  C6, as stated, fails when the first execution returns the nil list (an envelope
  without \<open>data\<close>): the cache then holds the text \<open>null\<close>, which \<open>getCache\<close> reads as
  the nil list, and \<open>Do\<close> takes a nil list from the cache for a miss. The second execution
  sends a second request.
\<close>

theorem Do_cache_nil_records_counterexample:
  "fst (Do ex_request (ex_world (Some ''localhost:6379'') None (Response 200 (Body ''[{}]''))))
     = Inr None
   \<and> redis_data (snd (Do ex_request
         (ex_world (Some ''localhost:6379'') None (Response 200 (Body ''[{}]'')))))
       (MarshalRequests [ex_request]) = Some ''null''
   \<and> length (http_calls (snd (Do ex_request
         (ex_world (Some ''localhost:6379'') None (Response 200 (Body ''[{}]'')))))) = 1
   \<and> fst (Do ex_request (snd (Do ex_request
         (ex_world (Some ''localhost:6379'') None (Response 200 (Body ''[{}]''))))))
     = Inr None
   \<and> length (http_calls (snd (Do ex_request (snd (Do ex_request
         (ex_world (Some ''localhost:6379'') None (Response 200 (Body ''[{}]''))))))))
     = 2"
proof -
  let ?w = "ex_world (Some ''localhost:6379'') None (Response 200 (Body ''[{}]''))"
  have a: "fst (Do ex_request ?w) = Inr None" by code_simp
  have b: "redis_data (snd (Do ex_request ?w)) (MarshalRequests [ex_request]) = Some ''null''"
    by code_simp
  have c: "length (http_calls (snd (Do ex_request ?w))) = 1" by code_simp
  have d: "fst (Do ex_request (snd (Do ex_request ?w))) = Inr None" by code_simp
  have e: "length (http_calls (snd (Do ex_request (snd (Do ex_request ?w))))) = 2"
    by code_simp
  from a b c d e show ?thesis by simp
qed

text \<open>
  C6, amended. With the cache enabled, after an execution that returned a record list
  that is not nil (it may be empty), executing a request with the same serialized form,
  in any world with the same pool and store whose \<open>GET\<close> does not fail, returns the
  same records from the cache and leaves the world as it is: no request is sent,
  whatever the network would answer.
\<close>

theorem Do_cache_round_trip:
  assumes "rpool w = Some addr"
    and "Do fr w = (Inr (Some recs), w')"
    and "MarshalRequests [fr2] = MarshalRequests [fr]"
    and "rpool w2 = rpool w'"
    and "redis_data w2 = redis_data w'"
    and "redis_get_error w2 = None"
  shows "getCache (MarshalRequests [fr2]) w2 = Inr (Some recs)
       \<and> Do fr2 w2 = (Inr (Some recs), w2)"
proof -
  let ?js = "MarshalRequests [fr]"
  have hit: "getCache ?js w2 = Inr (Some recs)"
    using Do_records_cases [OF assms(2)]
  proof
    assume "getCache ?js w = Inr (Some recs) \<and> w' = w"
    then have g: "getCache ?js w = Inr (Some recs)" and w': "w' = w" by simp_all
    from getCache_hit_entry [OF assms(1) g] obtain b where
      b: "redis_data w ?js = Some b" "Unmarshal decode_FIGIs b = Inr (Some recs)" by blast
    from assms(1,4,5) w' b(1) have "rpool w2 = Some addr" "redis_data w2 ?js = Some b"
      by simp_all
    from getCache_entry [OF this(1) assms(6) this(2)] b(2) show ?thesis by simp
  next
    assume "\<exists>body d0 ds.
            getCache ?js w = Inr None
            \<and> Unmarshal (decode_slice (decode_map decode_FIGIs)) body = Inr (d0 # ds)
            \<and> index d0 ''data'' None = Some recs
            \<and> setCache ?js (Some recs)
                 (w\<lparr>http_calls := http_calls w @ [httpRequest fr ?js]\<rparr>) = Inr w'"
    then obtain body d0 ds where
      u: "Unmarshal (decode_slice (decode_map decode_FIGIs)) body = Inr (d0 # ds)"
      and i: "index d0 ''data'' None = Some recs"
      and s: "setCache ?js (Some recs)
                (w\<lparr>http_calls := http_calls w @ [httpRequest fr ?js]\<rparr>) = Inr w'"
      by blast
    from Unmarshal_data_valid [OF u, of "''data''"] i have v: "valid_figis (Some recs)" by simp
    from s assms(1) have "rpool w' = Some addr"
      and "redis_data w' ?js = Some (MarshalFIGIs (Some recs))"
      by (auto simp: setCache_def redis_SET_def split: option.splits)
    with assms(4,5) have "rpool w2 = Some addr"
      "redis_data w2 ?js = Some (MarshalFIGIs (Some recs))"
      by simp_all
    from getCache_entry [OF this(1) assms(6) this(2)] Unmarshal_MarshalFIGIs [OF v]
    show ?thesis by simp
  qed
  then show ?thesis by (simp add: Do_def assms(3))
qed

theorem Do_cache_round_trip_witness:
  "fst (Do (APIKey ''secret'' ex_request)
         ((snd (Do ex_request
                 (ex_world (Some ''localhost:6379'') None (Response 200 (Body ex_body)))))
            \<lparr>transport := \<lambda>_. DoError ''network is unreachable''\<rparr>))
     = Inr (Some [Some ex_record])
   \<and> http_calls (snd (Do (APIKey ''secret'' ex_request)
         ((snd (Do ex_request
                 (ex_world (Some ''localhost:6379'') None (Response 200 (Body ex_body)))))
            \<lparr>transport := \<lambda>_. DoError ''network is unreachable''\<rparr>)))
     = [httpRequest ex_request (MarshalRequests [ex_request])]"
proof -
  let ?w = "ex_world (Some ''localhost:6379'') None (Response 200 (Body ex_body))"
  let ?w' = "snd (Do ex_request ?w)"
  let ?w2 = "?w'\<lparr>transport := \<lambda>_. DoError ''network is unreachable''\<rparr>"
  have h1: "rpool ?w = Some ''localhost:6379''" by (simp add: ex_world_def)
  have "fst (Do ex_request ?w) = Inr (Some [Some ex_record])" by code_simp
  then have h2: "Do ex_request ?w = (Inr (Some [Some ex_record]), ?w')"
    by (simp add: prod_eq_iff)
  have h3: "MarshalRequests [APIKey ''secret'' ex_request] = MarshalRequests [ex_request]"
    by (simp add: MarshalRequests_def requestJSON_def requestFields_def APIKey_def)
  have h4: "rpool ?w2 = rpool ?w'" by simp
  have h5: "redis_data ?w2 = redis_data ?w'" by simp
  have "redis_get_error ?w' = None" by code_simp
  then have h6: "redis_get_error ?w2 = None" by simp
  have c: "http_calls ?w' = [httpRequest ex_request (MarshalRequests [ex_request])]"
    by code_simp
  from Do_cache_round_trip [OF h1 h2 h3 h4 h5 h6] c show ?thesis by simp
qed

subsection \<open>The serialized request\<close>

lemma coerce_omitempty:
  "\<forall>(k, v) \<in> set fs. coerceUTF8 k = k \<Longrightarrow>
   map (\<lambda>(k, v). (coerceUTF8 k, coerce_json v)) (omitempty fs)
     = map (\<lambda>(k, v). (k, JStr (coerceUTF8 v))) (filter (\<lambda>(k, v). v \<noteq> []) fs)"
  by (induction fs) (auto simp: omitempty_def)

lemma map_of_omitempty:
  "distinct (map fst fs) \<Longrightarrow>
   map_of (map (\<lambda>(k, v). (k, JStr (coerceUTF8 v))) (filter (\<lambda>(k, v). v \<noteq> []) fs)) k
     = (case map_of fs k of
          None \<Rightarrow> None
        | Some v \<Rightarrow> if v = [] then None else Some (JStr (coerceUTF8 v)))"
proof (induction fs)
  case Nil
  then show ?case by simp
next
  case (Cons kv fs)
  obtain k0 v0 where kv: "kv = (k0, v0)" by (cases kv)
  from Cons.prems kv have d: "distinct (map fst fs)" and n: "k0 \<notin> fst ` set fs" by auto
  from n have "map_of fs k0 = None" by (simp add: map_of_eq_None_iff)
  with Cons.IH [OF d] kv show ?case by (auto split: option.splits)
qed

lemma textual_omitempty: "list_all (\<lambda>(k, v). textual v) (omitempty fs)"
  by (induction fs) (auto simp: omitempty_def)

text \<open>
  The text \<open>Do\<close> serializes is read back as an array of one object, which has a member
  for exactly the fields that are not empty, with the field's string coerced to valid
  UTF-8 as its value.
\<close>

lemma request_document:
  "\<exists>kvs. parseJSON (MarshalRequests [fr]) = Some (JArr [JObj kvs])
     \<and> distinct (map fst kvs)
     \<and> fst ` set kvs \<subseteq> fst ` set (requestFields fr)
     \<and> (\<forall>k. map_of kvs k =
           (case map_of (requestFields fr) k of
              None \<Rightarrow> None
            | Some v \<Rightarrow> if v = [] then None else Some (JStr (coerceUTF8 v))))"
proof -
  let ?fs = "requestFields fr"
  let ?kvs = "map (\<lambda>(k, v). (k, JStr (coerceUTF8 v))) (filter (\<lambda>(k, v). v \<noteq> []) ?fs)"
  have keys: "\<forall>(k, v) \<in> set ?fs. coerceUTF8 k = k"
    by (simp add: requestFields_def field_names_ascii del: coerceUTF8.simps)
  have dist: "distinct (map fst ?fs)" by (simp add: requestFields_def)
  have "textual (JArr [requestJSON fr])"
    by (simp add: requestJSON_def textual_omitempty)
  from parseJSON_render [OF this]
  have p: "parseJSON (MarshalRequests [fr]) = Some (JArr [JObj ?kvs])"
    by (simp add: MarshalRequests_def requestJSON_def coerce_omitempty [OF keys])
  have m: "map fst ?kvs = map fst (filter (\<lambda>(k, v). v \<noteq> []) ?fs)"
    by (simp add: case_prod_unfold comp_def)
  have d: "distinct (map fst ?kvs)"
    unfolding m using dist by (simp add: distinct_map_filter)
  have "set (map fst ?kvs) \<subseteq> set (map fst ?fs)"
    unfolding m by auto
  then have s: "fst ` set ?kvs \<subseteq> fst ` set ?fs"
    by (simp only: set_map)
  from p d s map_of_omitempty [OF dist] show ?thesis by blast
qed

lemma Do_store_frame:
  assumes "key \<noteq> MarshalRequests [fr]"
  shows "redis_data (snd (Do fr w)) key = redis_data w key"
  using assms
  by (auto simp: Do_def classify_def setCache_def redis_SET_def Let_def
        split: sum.splits option.splits http_result.splits body_read.splits list.splits)

lemma getCache_frame:
  assumes "key \<noteq> js"
  shows "getCache js (w\<lparr>redis_data := (redis_data w)(key := x)\<rparr>) = getCache js w"
  using assms by (auto simp: getCache_def redis_GET_def split: option.splits)

lemma Do_read_frame:
  assumes "key \<noteq> MarshalRequests [fr]"
  shows "fst (Do fr (w\<lparr>redis_data := (redis_data w)(key := x)\<rparr>)) = fst (Do fr w)"
  using assms
  by (auto simp: Do_def getCache_frame classify_def setCache_def redis_SET_def Let_def
        split: sum.splits option.splits http_result.splits body_read.splits list.splits)

text \<open>
  C7, as stated, fails for a request whose value is empty: \<open>idValue\<close> has the
  \<open>omitempty\<close> option like the four optional fields, and \<open>NewRequest\<close> does not
  check the value, so the object then has no member \<open>idValue\<close>.
\<close>

theorem MarshalRequests_empty_idValue_counterexample:
  "NewRequest ''ID_ISIN'' [] = Inr (ex_request\<lparr>IDValue := [], ExchangeCode := []\<rparr>)
   \<and> MarshalRequests [ex_request\<lparr>IDValue := [], ExchangeCode := []\<rparr>]
       = ''[{\"idType\":\"ID_ISIN\"}]''
   \<and> parseJSON ''[{\"idType\":\"ID_ISIN\"}]'' = Some (JArr [JObj [(''idType'', JStr ''ID_ISIN'')]])"
proof -
  have a: "NewRequest ''ID_ISIN'' [] = Inr (ex_request\<lparr>IDValue := [], ExchangeCode := []\<rparr>)"
    by (simp add: NewRequest_def isValidIdentifier_set ValidIdentifiers_def ex_request_def)
  have b: "MarshalRequests [ex_request\<lparr>IDValue := [], ExchangeCode := []\<rparr>]
       = ''[{\"idType\":\"ID_ISIN\"}]''"
    by code_simp
  have c: "parseJSON ''[{\"idType\":\"ID_ISIN\"}]''
             = Some (JArr [JObj [(''idType'', JStr ''ID_ISIN'')]])"
    by code_simp
  from a b c show ?thesis by simp
qed

text \<open>
  C7, amended. The text \<open>Do\<close> serializes (the body of the HTTP request) is an array of
  one object whose members are among the six fields \<open>idType\<close>, \<open>idValue\<close>,
  \<open>exchCode\<close>, \<open>micCode\<close>, \<open>currency\<close> and \<open>marketSecDes\<close>, each at most once;
  each of the six is absent exactly when its field is empty, and is otherwise a string
  (never \<open>null\<close>), the field coerced to valid UTF-8.
\<close>

theorem MarshalRequests_members:
  "\<exists>kvs. parseJSON (MarshalRequests [fr]) = Some (JArr [JObj kvs])
     \<and> distinct (map fst kvs)
     \<and> fst ` set kvs
         \<subseteq> {''idType'', ''idValue'', ''exchCode'', ''micCode'', ''currency'', ''marketSecDes''}
     \<and> map_of kvs ''idType''
         = (if IDType fr = [] then None else Some (JStr (coerceUTF8 (IDType fr))))
     \<and> map_of kvs ''idValue''
         = (if IDValue fr = [] then None else Some (JStr (coerceUTF8 (IDValue fr))))
     \<and> map_of kvs ''exchCode''
         = (if ExchangeCode fr = [] then None else Some (JStr (coerceUTF8 (ExchangeCode fr))))
     \<and> map_of kvs ''micCode''
         = (if MICCode fr = [] then None else Some (JStr (coerceUTF8 (MICCode fr))))
     \<and> map_of kvs ''currency''
         = (if Currency fr = [] then None else Some (JStr (coerceUTF8 (Currency fr))))
     \<and> map_of kvs ''marketSecDes''
         = (if MarketSector fr = [] then None else Some (JStr (coerceUTF8 (MarketSector fr))))
     \<and> reqbody (httpRequest fr (MarshalRequests [fr])) = MarshalRequests [fr]"
proof -
  from request_document [of fr] obtain kvs where
    p: "parseJSON (MarshalRequests [fr]) = Some (JArr [JObj kvs])"
    and d: "distinct (map fst kvs)"
    and s: "fst ` set kvs \<subseteq> fst ` set (requestFields fr)"
    and m: "\<And>k. map_of kvs k =
           (case map_of (requestFields fr) k of
              None \<Rightarrow> None
            | Some v \<Rightarrow> if v = [] then None else Some (JStr (coerceUTF8 v)))"
    by blast
  have "fst ` set (requestFields fr)
         = {''idType'', ''idValue'', ''exchCode'', ''micCode'', ''currency'', ''marketSecDes''}"
    by (simp add: requestFields_def)
  with s have s': "fst ` set kvs
         \<subseteq> {''idType'', ''idValue'', ''exchCode'', ''micCode'', ''currency'', ''marketSecDes''}"
    by simp
  have l: "map_of kvs ''idType''
         = (if IDType fr = [] then None else Some (JStr (coerceUTF8 (IDType fr))))"
    "map_of kvs ''idValue''
         = (if IDValue fr = [] then None else Some (JStr (coerceUTF8 (IDValue fr))))"
    "map_of kvs ''exchCode''
         = (if ExchangeCode fr = [] then None else Some (JStr (coerceUTF8 (ExchangeCode fr))))"
    "map_of kvs ''micCode''
         = (if MICCode fr = [] then None else Some (JStr (coerceUTF8 (MICCode fr))))"
    "map_of kvs ''currency''
         = (if Currency fr = [] then None else Some (JStr (coerceUTF8 (Currency fr))))"
    "map_of kvs ''marketSecDes''
         = (if MarketSector fr = [] then None else Some (JStr (coerceUTF8 (MarketSector fr))))"
    unfolding m by (simp_all add: requestFields_def)
  have b: "reqbody (httpRequest fr (MarshalRequests [fr])) = MarshalRequests [fr]"
    by (simp add: httpRequest_def)
  from p d s' l b show ?thesis by blast
qed

subsection \<open>The exchange code in the cache key\<close>

lemma appendString_invalid_bytes:
  "appendString [CHR 0xFF] = dquote # bslash # ''ufffd'' @ [dquote]"
  "appendString [CHR 0xFE] = dquote # bslash # ''ufffd'' @ [dquote]"
  by (simp_all add: appendString_def DecodeRuneInString_def byte_def RuneError_def)

lemma MarshalRequests_exchange:
  "MarshalRequests [ex_request\<lparr>ExchangeCode := e\<rparr>] =
     ''[{\"idType\":\"ID_ISIN\",\"idValue\":\"US3623931009\"''
       @ (if e = [] then [] else '',\"exchCode\":'' @ appendString e) @ ''}]''"
proof -
  have a: "appendString ''idType'' = ''\"idType\"''"
    "appendString ''ID_ISIN'' = ''\"ID_ISIN\"''"
    "appendString ''idValue'' = ''\"idValue\"''"
    "appendString ''US3623931009'' = ''\"US3623931009\"''"
    "appendString ''exchCode'' = ''\"exchCode\"''"
    by code_simp+
  show ?thesis
    by (simp add: MarshalRequests_def requestJSON_def requestFields_def omitempty_def
          ex_request_def a)
qed

text \<open>
  C8, as stated, fails for exchange codes that are not valid UTF-8: \<open>json.Marshal\<close>
  writes \<open>U+FFFD\<close> for every byte that is not part of a well-formed encoding, so the
  one-byte codes \<open>0xFF\<close> and \<open>0xFE\<close> give the same text, hence the same cache key.
\<close>

theorem exchange_invalid_utf8_counterexample:
  "[CHR 0xFF] \<noteq> [CHR 0xFE]
   \<and> MarshalRequests [Exchange [CHR 0xFF] ex_request]
       = ''[{\"idType\":\"ID_ISIN\",\"idValue\":\"US3623931009\",\"exchCode\":\"''
           @ bslash # ''ufffd\"}]''
   \<and> MarshalRequests [Exchange [CHR 0xFE] ex_request]
       = MarshalRequests [Exchange [CHR 0xFF] ex_request]"
  by (simp add: Exchange_def MarshalRequests_exchange appendString_invalid_bytes dquote_def)

text \<open>
  C8, amended. Two requests that differ only in their exchange codes, both valid UTF-8,
  have different serialized texts; the execution of one neither changes the entry of the
  cache under the text of the other nor depends on it.
\<close>

theorem exchange_code_distinct_keys:
  assumes "ValidString e1" and "ValidString e2" and "e1 \<noteq> e2"
  shows "MarshalRequests [Exchange e1 fr] \<noteq> MarshalRequests [Exchange e2 fr]
       \<and> redis_data (snd (Do (Exchange e1 fr) w)) (MarshalRequests [Exchange e2 fr])
          = redis_data w (MarshalRequests [Exchange e2 fr])
       \<and> fst (Do (Exchange e1 fr)
                (w\<lparr>redis_data := (redis_data w)(MarshalRequests [Exchange e2 fr] := x)\<rparr>))
          = fst (Do (Exchange e1 fr) w)"
proof -
  let ?f1 = "Exchange e1 fr" and ?f2 = "Exchange e2 fr"
  have ne: "MarshalRequests [?f1] \<noteq> MarshalRequests [?f2]"
  proof
    assume eq: "MarshalRequests [?f1] = MarshalRequests [?f2]"
    from request_document [of ?f1] obtain kvs1 where
      p1: "parseJSON (MarshalRequests [?f1]) = Some (JArr [JObj kvs1])"
      and m1: "\<And>k. map_of kvs1 k =
           (case map_of (requestFields ?f1) k of
              None \<Rightarrow> None
            | Some v \<Rightarrow> if v = [] then None else Some (JStr (coerceUTF8 v)))"
      by blast
    from request_document [of ?f2] obtain kvs2 where
      p2: "parseJSON (MarshalRequests [?f2]) = Some (JArr [JObj kvs2])"
      and m2: "\<And>k. map_of kvs2 k =
           (case map_of (requestFields ?f2) k of
              None \<Rightarrow> None
            | Some v \<Rightarrow> if v = [] then None else Some (JStr (coerceUTF8 v)))"
      by blast
    from eq p1 p2 have "kvs1 = kvs2" by simp
    then have "map_of kvs1 ''exchCode'' = map_of kvs2 ''exchCode''" by simp
    then have "(if e1 = [] then None else Some (JStr (coerceUTF8 e1)))
                 = (if e2 = [] then None else Some (JStr (coerceUTF8 e2)))"
      unfolding m1 m2 by (simp add: requestFields_def Exchange_def)
    moreover have "coerceUTF8 e1 = e1" "coerceUTF8 e2 = e2"
      using assms(1,2) by (simp_all add: ValidString_coerceUTF8)
    ultimately have "e1 = e2" by (auto split: if_splits)
    with assms(3) show False by simp
  qed
  then have ne': "MarshalRequests [?f2] \<noteq> MarshalRequests [?f1]" by simp
  from ne Do_store_frame [OF ne', of w] Do_read_frame [OF ne', of w x]
  show ?thesis by simp
qed

theorem exchange_code_distinct_keys_witness:
  "MarshalRequests [Exchange ''US'' ex_request] \<noteq> MarshalRequests [Exchange ''GB'' ex_request]
   \<and> redis_data (snd (Do (Exchange ''US'' ex_request)
         (ex_world (Some ''localhost:6379'') None (Response 200 (Body ex_body)))))
       (MarshalRequests [Exchange ''GB'' ex_request]) = None"
proof -
  have v: "ValidString ''US''" "ValidString ''GB''"
    by (simp_all add: DecodeRuneInString_def byte_def RuneError_def)
  have n: "''US'' \<noteq> ''GB''" by simp
  from exchange_code_distinct_keys [OF v n, of ex_request
      "ex_world (Some ''localhost:6379'') None (Response 200 (Body ex_body))"]
  show ?thesis by (simp add: ex_world_def)
qed

end
